theory Spec2Isabelle
  imports Complex_Main "HOL-Library.Log_Nat"
begin

section \<open>PeriodPredictionService: the data model\<close>

text \<open>
  The service works on date strings (\<^verbatim>\<open>string[]\<close>) and reads each of them through
  \<^verbatim>\<open>new Date(s).getTime()\<close>, the number of milliseconds since the epoch. The parser of the
  JavaScript runtime is not part of the repository: it is the parameter \<open>tm\<close> of every
  function below that reads a date string. All dates are taken to be valid (no \<^verbatim>\<open>NaN\<close>
  time value).

  JavaScript numbers are IEEE 754 doubles. Time values, their differences and day counts
  are integers, taken to be below \<open>2^53\<close> in absolute value, so arithmetic on them is exact,
  and the quotient of a time
  difference by \<open>86400000\<close> is never rounded across an integer: \<^verbatim>\<open>Math.floor\<close>, \<^verbatim>\<open>Math.ceil\<close>
  and the comparison with 7 see the exact quotient. The weights and the weighted average
  are not integers: there every operation of the source is followed by the rounding of its
  exact result to the nearest double, \<open>double\<close> below (53 significant bits, a tie going to
  the even significand; the exponent range is not modelled, the values here being far from
  overflow and underflow).
\<close>

definition DAY :: int where
  \<comment> \<open>\<^verbatim>\<open>1000 * 60 * 60 * 24\<close>\<close>
  "DAY = 1000 * 60 * 60 * 24"

definition roundHalfEven :: "rat \<Rightarrow> int" where
  "roundHalfEven y =
     (let f = \<lfloor>y\<rfloor>; r = y - of_int f
      in if r < 1 / 2 then f else if 1 / 2 < r then f + 1 else if even f then f else f + 1)"

definition binade :: "rat \<Rightarrow> int" where
  \<comment> \<open>the exponent \<open>e\<close> with \<open>2^e \<le> |x| < 2^(e+1)\<close>, for \<open>x\<close> other than 0\<close>
  "binade x =
     (let (p, q) = quotient_of \<bar>x\<bar>; e = bitlen p - bitlen q
      in if 2 powi e \<le> \<bar>x\<bar> then e else e - 1)"

definition double :: "rat \<Rightarrow> rat" where
  \<comment> \<open>the double nearest to \<open>x\<close>\<close>
  "double x =
     (if x = 0 then 0
      else let ulp = 2 powi (binade x - 52) in of_int (roundHalfEven (x / ulp)) * ulp)"

definition Math_round :: "rat \<Rightarrow> int" where
  \<comment> \<open>\<^verbatim>\<open>Math.round\<close>: the nearest integer, a tie going up\<close>
  "Math_round x = \<lfloor>x + 1 / 2\<rfloor>"

text \<open>
  The three result interfaces. A field \<open>f\<close> of the source is the field \<open>p_f\<close>, \<open>w_f\<close> or
  \<open>c_f\<close> here. A date rendered by \<^verbatim>\<open>toLocaleDateString\<close> is kept as the calendar day it
  names (the number of days since the epoch, in local time), not as text; the window start
  is \<open>None\<close> where the source renders an invalid date (\<^verbatim>\<open>'Invalid Date'\<close>).
\<close>

record PredictionResult =
  p_days :: int
  p_date :: int
  p_cycleLength :: int

record FertilityWindow =
  w_start :: "int option"
  w_end :: int
  w_ovulationDay :: int

record CycleInfo =
  c_phase :: string
  c_description :: string
  c_cycleDay :: int
  c_pregnancyChance :: string

section \<open>Phase and pregnancy-chance classification\<close>

definition getCyclePhase :: "int \<Rightarrow> string" where
  "getCyclePhase cycleDay =
     (if cycleDay \<le> 5 then ''Menstrual''
      else if cycleDay \<le> 10 then ''Follicular''
      else if cycleDay \<le> 14 then ''Ovulatory''
      else if cycleDay \<le> 28 then ''Luteal''
      else ''Extended'')"

definition getPhaseDescription :: "string \<Rightarrow> string" where
  "getPhaseDescription phase =
     (if phase = ''Menstrual'' then
        ''Your period is happening. You might experience cramps, fatigue, and mood changes. Focus on rest and self-care.''
      else if phase = ''Follicular'' then
        ''Energy levels start to rise with increasing estrogen. Good time for starting new projects and physical activity.''
      else if phase = ''Ovulatory'' then
        ''Peak fertility window. You might notice increased energy, better mood, and heightened sex drive.''
      else if phase = ''Luteal'' then
        ''Progesterone rises. You might experience PMS symptoms like bloating or mood changes. Focus on gentle exercise and comfort.''
      else if phase = ''Extended'' then
        ''Your cycle has gone longer than typical. Consider tracking any symptoms and consulting your healthcare provider if this persists.''
      else '''')"

definition getPregnancyChance :: "int \<Rightarrow> string" where
  "getPregnancyChance cycleDay =
     (if cycleDay \<ge> 11 \<and> cycleDay \<le> 17 then ''High''
      else if (cycleDay \<ge> 8 \<and> cycleDay \<le> 10) \<or> (cycleDay \<ge> 18 \<and> cycleDay \<le> 20) then ''Medium''
      else ''Low'')"

section \<open>The Date object\<close>

text \<open>
  A \<^verbatim>\<open>Date\<close> is its time value, an integer number of milliseconds. The methods that work
  in local time follow ECMAScript: a time zone gives the offset of local time at a UTC time
  value (\<open>utcOffset\<close>) and at a local time value (\<open>localOffset\<close>, which for a local time that
  a transition skips or repeats is the offset before the transition), \<open>LocalTime\<close> and \<open>UTC\<close>
  convert, and \<^verbatim>\<open>d.setDate(d.getDate() + n)\<close> moves the local time by \<open>n\<close> calendar days and
  converts back, keeping the local time of day. \<^verbatim>\<open>toLocaleDateString\<close> names the local
  calendar day. The wall clock, \<^verbatim>\<open>new Date()\<close>, is the parameter \<open>now\<close> of the functions
  that read it.
\<close>

record zone =
  utcOffset :: "int \<Rightarrow> int"
  localOffset :: "int \<Rightarrow> int"

definition LocalTime :: "zone \<Rightarrow> int \<Rightarrow> int" where
  "LocalTime z t = t + utcOffset z t"

definition UTC :: "zone \<Rightarrow> int \<Rightarrow> int" where
  "UTC z t = t - localOffset z t"

definition setDate_plus :: "zone \<Rightarrow> int \<Rightarrow> int \<Rightarrow> int" where
  \<comment> \<open>\<^verbatim>\<open>d.setDate(d.getDate() + n)\<close>\<close>
  "setDate_plus z d n = UTC z (LocalTime z d + n * DAY)"

definition toLocaleDateString :: "zone \<Rightarrow> int \<Rightarrow> int" where
  "toLocaleDateString z d = LocalTime z d div DAY"

definition fixedZone :: "int \<Rightarrow> zone" where
  \<comment> \<open>a zone that is always \<open>tz\<close> milliseconds east of UTC\<close>
  "fixedZone tz = \<lparr>utcOffset = (\<lambda>t. tz), localOffset = (\<lambda>t. tz)\<rparr>"

text \<open>
  The dates the application stores are date-only ISO strings, \<^verbatim>\<open>YYYY-MM-DD\<close>, which
  \<^verbatim>\<open>new Date\<close> reads as midnight UTC of that day. \<open>isoDateTime\<close> is that reading (the day
  count is the usual civil-calendar formula); it is the parser used for the concrete dates
  below.
\<close>

definition digitsValue :: "string \<Rightarrow> int" where
  "digitsValue s = foldl (\<lambda>n c. 10 * n + (of_char c - 48)) 0 s"

definition days_from_civil :: "int \<Rightarrow> int \<Rightarrow> int \<Rightarrow> int" where
  "days_from_civil y m d =
     (let y' = (if m \<le> 2 then y - 1 else y);
          era = y' div 400;
          yoe = y' - era * 400;
          doy = (153 * (if m > 2 then m - 3 else m + 9) + 2) div 5 + d - 1;
          doe = yoe * 365 + yoe div 4 - yoe div 100 + doy
      in era * 146097 + doe - 719468)"

definition civil_from_days :: "int \<Rightarrow> int \<times> int \<times> int" where
  \<comment> \<open>year, month and day of month of a day count\<close>
  "civil_from_days n =
     (let z = n + 719468;
          era = z div 146097;
          doe = z - era * 146097;
          yoe = (doe - doe div 1460 + doe div 36524 - doe div 146096) div 365;
          doy = doe - (365 * yoe + yoe div 4 - yoe div 100);
          mp = (5 * doy + 2) div 153;
          d = doy - (153 * mp + 2) div 5 + 1;
          m = (if mp < 10 then mp + 3 else mp - 9);
          y = yoe + era * 400
      in (if m \<le> 2 then y + 1 else y, m, d))"

definition isoDateTime :: "string \<Rightarrow> int" where
  "isoDateTime s =
     days_from_civil (digitsValue (take 4 s)) (digitsValue (take 2 (drop 5 s)))
       (digitsValue (take 2 (drop 8 s))) * DAY"

text \<open>
  A zone with daylight-saving time: New York in 2024, 5 hours west of UTC, and 4 hours
  from 10 March 07:00 UTC to 3 November 06:00 UTC (local times from 10 March 03:00 up to
  3 November 02:00).
\<close>

definition newYork2024 :: zone where
  "newYork2024 =
     \<lparr>utcOffset = (\<lambda>t. if days_from_civil 2024 3 10 * DAY + 7 * 3600000 \<le> t
                            \<and> t < days_from_civil 2024 11 3 * DAY + 6 * 3600000
                         then - 4 * 3600000 else - 5 * 3600000),
      localOffset = (\<lambda>t. if days_from_civil 2024 3 10 * DAY + 3 * 3600000 \<le> t
                              \<and> t < days_from_civil 2024 11 3 * DAY + 2 * 3600000
                           then - 4 * 3600000 else - 5 * 3600000)\<rparr>"

text \<open>
  \<^verbatim>\<open>getFertilityWindow\<close> reads a date back from the text that \<^verbatim>\<open>toLocaleDateString\<close> made.
  What \<^verbatim>\<open>new Date\<close> makes of that text depends on the locale and on the parser of the
  runtime; it is the parameter \<open>reparse\<close>, from the calendar day that was rendered to the
  time value read back (\<open>None\<close> for an invalid date). Two instances: in the locale en-US the
  text is month/day/year and is read back as the local midnight of the same day; in the
  locale en-GB the text is day/month/year, and a parser that reads month/day/year swaps
  the two or, for a day of month above 12, gives an invalid date.
\<close>

definition parse_enUS :: "zone \<Rightarrow> int \<Rightarrow> int option" where
  "parse_enUS z day = Some (UTC z (day * DAY))"

definition parse_enGB :: "zone \<Rightarrow> int \<Rightarrow> int option" where
  "parse_enGB z day =
     (let (y, m, d) = civil_from_days day
      in if d \<le> 12 then Some (UTC z (days_from_civil y d m * DAY)) else None)"

section \<open>Average cycle length\<close>

definition sortDates :: "(string \<Rightarrow> int) \<Rightarrow> string list \<Rightarrow> string list" where
  \<comment> \<open>\<^verbatim>\<open>dates.sort((a, b) => new Date(b).getTime() - new Date(a).getTime())\<close>: stable, latest first\<close>
  "sortDates tm dates = sort_key (\<lambda>a. - tm a) dates"

definition groupStep ::
  "(string \<Rightarrow> int) \<Rightarrow> string list \<Rightarrow> nat \<Rightarrow> string list list \<times> string list \<Rightarrow> string list list \<times> string list" where
  \<comment> \<open>the body of the grouping loop at index \<open>i\<close>, on the state \<open>(periods, currentPeriod)\<close>\<close>
  "groupStep tm sortedDates i = (\<lambda>(periods, currentPeriod).
     let dayDiff = \<bar>(of_int (tm (sortedDates ! i) - tm (sortedDates ! (i - 1))) :: rat) / of_int DAY\<bar>
     in if dayDiff \<le> 7 then (periods, currentPeriod @ [sortedDates ! i])
        else (periods @ [currentPeriod], [sortedDates ! i]))"

definition groupPeriods :: "(string \<Rightarrow> int) \<Rightarrow> string list \<Rightarrow> string list list" where
  \<comment> \<open>the grouping loop and the final push; both callers run it on a non-empty array only\<close>
  "groupPeriods tm sortedDates =
     (let (periods, currentPeriod) =
            fold (groupStep tm sortedDates) [1 ..< length sortedDates] ([], [sortedDates ! 0])
      in periods @ [currentPeriod])"

definition cycleStep ::
  "(string \<Rightarrow> int) \<Rightarrow> string list list \<Rightarrow> nat \<Rightarrow> rat \<times> rat \<times> nat \<Rightarrow> rat \<times> rat \<times> nat" where
  \<comment> \<open>the body of the averaging loop at index \<open>i\<close>, on the state \<open>(weightedTotal, weightSum, cycles)\<close>\<close>
  "cycleStep tm periods i = (\<lambda>(weightedTotal, weightSum, cycles).
     let currentPeriodStart = tm (last (periods ! (i - 1)));
         prevPeriodStart = tm (last (periods ! i));
         dayDiff = \<lfloor>(of_int (currentPeriodStart - prevPeriodStart) :: rat) / of_int DAY\<rfloor>;
         weight = max (double (1 - double (of_nat cycles * double (2 / 10)))) (double (2 / 10))
     in (double (weightedTotal + double (of_int dayDiff * weight)), double (weightSum + weight),
         cycles + 1))"

definition weightedAverage :: "(string \<Rightarrow> int) \<Rightarrow> string list list \<Rightarrow> int" where
  "weightedAverage tm periods =
     (let (weightedTotal, weightSum, cycles) =
            fold (cycleStep tm periods) [1 ..< min (length periods) 6] (0, 0, 0)
      in if cycles > 0 then Math_round (double (weightedTotal / weightSum)) else 28)"

definition getAverageCycleLength :: "(string \<Rightarrow> int) \<Rightarrow> string list \<Rightarrow> int \<times> string list" where
  \<comment> \<open>the number returned, and the caller's array as the call leaves it (\<^verbatim>\<open>sort\<close> works in place)\<close>
  "getAverageCycleLength tm dates =
     (if length dates < 2 then (28, dates)
      else let sortedDates = sortDates tm dates;
               periods = groupPeriods tm sortedDates
           in (weightedAverage tm periods, sortedDates))"

definition loadStatistics_periods :: "(string \<Rightarrow> int) \<Rightarrow> string list \<Rightarrow> string list list option" where
  \<comment> \<open>the \<^verbatim>\<open>periods\<close> of \<^verbatim>\<open>loadStatistics\<close> for the saved dates; \<open>None\<close> is its early return\<close>
  "loadStatistics_periods tm saved =
     (if length saved = 0 then None
      else Some (groupPeriods tm (sortDates tm saved)))"

section \<open>Forecast, cycle day, ovulation and fertility window\<close>

definition getPrediction ::
  "(string \<Rightarrow> int) \<Rightarrow> zone \<Rightarrow> int \<Rightarrow> string \<Rightarrow> string list \<Rightarrow> PredictionResult \<times> string list" where
  "getPrediction tm z now startDate allDates =
     (let (cycleLength, allDates') = getAverageCycleLength tm allDates;
          today = now;
          nextPeriod = setDate_plus z (tm startDate) cycleLength;
          daysUntil = \<lceil>(of_int (nextPeriod - today) :: rat) / of_int DAY\<rceil>
      in (\<lparr>p_days = daysUntil, p_date = toLocaleDateString z nextPeriod, p_cycleLength = cycleLength\<rparr>,
          allDates'))"

definition getCurrentCycleDay :: "(string \<Rightarrow> int) \<Rightarrow> int \<Rightarrow> string \<Rightarrow> string option \<Rightarrow> int" where
  \<comment> \<open>\<open>None\<close> is an omitted \<^verbatim>\<open>currentDate\<close>; the empty string is falsy as well\<close>
  "getCurrentCycleDay tm now startDate currentDate =
     (let start = tm startDate;
          current = (case currentDate of
                       None \<Rightarrow> now
                     | Some c \<Rightarrow> if c = [] then now else tm c);
          dayDiff = \<lfloor>(of_int (current - start) :: rat) / of_int DAY\<rfloor>
      in dayDiff + 1)"

definition getOvulationDay :: "(string \<Rightarrow> int) \<Rightarrow> zone \<Rightarrow> string \<Rightarrow> int option \<Rightarrow> int" where
  \<comment> \<open>\<^verbatim>\<open>cycleLength || 28\<close>: an omitted length and the length 0 are both falsy\<close>
  "getOvulationDay tm z startDate cycleLength =
     (let start = tm startDate;
          length = (case cycleLength of None \<Rightarrow> 28 | Some n \<Rightarrow> if n = 0 then 28 else n);
          ovulationDayOffset = length - 14;
          ovulationDate = setDate_plus z start ovulationDayOffset
      in toLocaleDateString z ovulationDate)"

definition getFertilityWindow ::
  "(string \<Rightarrow> int) \<Rightarrow> zone \<Rightarrow> (int \<Rightarrow> int option) \<Rightarrow> string \<Rightarrow> int option \<Rightarrow> FertilityWindow" where
  \<comment> \<open>an invalid \<^verbatim>\<open>ovulationDate\<close> stays invalid through \<^verbatim>\<open>setDate\<close> and is rendered as such\<close>
  "getFertilityWindow tm z reparse startDate cycleLength =
     (let cycle = (case cycleLength of None \<Rightarrow> 28 | Some n \<Rightarrow> if n = 0 then 28 else n);
          ovulationDay = getOvulationDay tm z startDate (Some cycle);
          ovulationDate = reparse ovulationDay;
          startWindow = map_option (\<lambda>d. setDate_plus z d (- 5)) ovulationDate
      in \<lparr>w_start = map_option (toLocaleDateString z) startWindow, w_end = ovulationDay,
          w_ovulationDay = ovulationDay\<rparr>)"

definition getCycleInfo ::
  "(string \<Rightarrow> int) \<Rightarrow> int \<Rightarrow> string \<Rightarrow> string option \<Rightarrow> int option \<Rightarrow> CycleInfo" where
  "getCycleInfo tm now startDate currentDate cycleLength =
     (let cycleDay = getCurrentCycleDay tm now startDate currentDate;
          phase = getCyclePhase cycleDay
      in \<lparr>c_phase = phase, c_description = getPhaseDescription phase, c_cycleDay = cycleDay,
          c_pregnancyChance = getPregnancyChance cycleDay\<rparr>)"

section \<open>Episodes and the estimate in the words of the specification\<close>

text \<open>
  The specification groups the dates by a walk: sort the dates, latest first; walk the
  sorted sequence and start a new episode whenever the current date and the previous one
  are more than 7 days apart, otherwise append the date to the current episode; at the end
  flush the open episode. It describes the estimate on these episodes: the start of an
  episode is its earliest date, gap \<open>k\<close> is the difference in days between the starts of
  episode \<open>k\<close> and of the next older episode, gap \<open>k\<close> has the weight \<open>max(1 - k*0.2, 0.2)\<close>,
  at most 5 gaps count, and the estimate is the weighted mean rounded to the nearest
  integer. These definitions follow that wording, in exact arithmetic, not the code.
\<close>

fun spec_walk ::
  "(string \<Rightarrow> int) \<Rightarrow> string list list \<Rightarrow> string list \<Rightarrow> string list \<Rightarrow> string list list" where
  "spec_walk tm episodes current [] = episodes @ [current]"
| "spec_walk tm episodes current (d # ds) =
     (if 7 * DAY < \<bar>tm d - tm (last current)\<bar> then spec_walk tm (episodes @ [current]) [d] ds
      else spec_walk tm episodes (current @ [d]) ds)"

definition spec_episodes :: "(string \<Rightarrow> int) \<Rightarrow> string list \<Rightarrow> string list list" where
  "spec_episodes tm dates =
     (case sort_key (\<lambda>d. - tm d) dates of [] \<Rightarrow> [] | d # ds \<Rightarrow> spec_walk tm [] [d] ds)"

definition spec_episodeStart :: "(string \<Rightarrow> int) \<Rightarrow> string list \<Rightarrow> int" where
  "spec_episodeStart tm episode = Min (tm ` set episode)"

definition spec_gap :: "(string \<Rightarrow> int) \<Rightarrow> string list list \<Rightarrow> nat \<Rightarrow> int" where
  "spec_gap tm episodes k =
     (spec_episodeStart tm (episodes ! k) - spec_episodeStart tm (episodes ! Suc k)) div DAY"

definition spec_weight :: "nat \<Rightarrow> rat" where
  "spec_weight k = max (1 - of_nat k * (2 / 10)) (2 / 10)"

definition spec_mean :: "(string \<Rightarrow> int) \<Rightarrow> string list list \<Rightarrow> rat" where
  "spec_mean tm episodes =
     (let n = min (length episodes - 1) 5
      in (\<Sum>k<n. of_int (spec_gap tm episodes k) * spec_weight k) / (\<Sum>k<n. spec_weight k))"

definition spec_estimateCycleLength :: "(string \<Rightarrow> int) \<Rightarrow> string list list \<Rightarrow> int" where
  "spec_estimateCycleLength tm episodes = round (spec_mean tm episodes)"

definition halfway :: "rat \<Rightarrow> bool" where
  \<comment> \<open>\<open>x\<close> lies exactly between two neighbouring integers\<close>
  "halfway x \<longleftrightarrow> 2 * x = of_int (2 * \<lfloor>x\<rfloor> + 1)"

definition near :: "rat \<Rightarrow> rat \<Rightarrow> rat \<Rightarrow> bool" where
  \<comment> \<open>\<open>x'\<close> is \<open>x\<close> up to the relative error \<open>c / 2^53\<close>\<close>
  "near c x' x \<longleftrightarrow> \<bar>x' - x\<bar> \<le> c * (1 / 2 ^ 53) * x"

definition doubleWeight :: "nat \<Rightarrow> rat" where
  \<comment> \<open>the weight that the averaging loop computes when \<open>cycles\<close> gaps are done\<close>
  "doubleWeight cycles = max (double (1 - double (of_nat cycles * double (2 / 10)))) (double (2 / 10))"

section \<open>Arithmetic of days\<close>

lemma DAY_pos: "0 < DAY"
  by (simp add: DAY_def)

lemma floor_days: "\<lfloor>(of_int a :: rat) / of_int DAY\<rfloor> = a div DAY"
  by (rule floor_divide_of_int_eq)

lemma ceiling_days: "\<lceil>(of_int a :: rat) / of_int DAY\<rceil> = - ((- a) div DAY)"
proof -
  have "- ((of_int a :: rat) / of_int DAY) = of_int (- a) / of_int DAY"
    by simp
  then show ?thesis
    unfolding ceiling_def by (simp only: floor_divide_of_int_eq)
qed

lemma LocalTime_fixedZone: "LocalTime (fixedZone tz) t = t + tz"
  by (simp add: LocalTime_def fixedZone_def)

lemma UTC_fixedZone: "UTC (fixedZone tz) t = t - tz"
  by (simp add: UTC_def fixedZone_def)

lemma setDate_plus_fixedZone: "setDate_plus (fixedZone tz) d n = d + n * DAY"
  by (simp add: setDate_plus_def LocalTime_fixedZone UTC_fixedZone)

lemma toLocaleDateString_fixedZone: "toLocaleDateString (fixedZone tz) d = (d + tz) div DAY"
  by (simp add: toLocaleDateString_def LocalTime_fixedZone)

lemma toLocaleDateString_setDate_plus:
  "toLocaleDateString (fixedZone tz) (setDate_plus (fixedZone tz) d n)
     = toLocaleDateString (fixedZone tz) d + n"
proof -
  have "d + n * DAY + tz = (d + tz) + n * DAY"
    by simp
  then show ?thesis
    unfolding toLocaleDateString_fixedZone setDate_plus_fixedZone using DAY_pos
    by (simp only: div_mult_self1)
qed

lemma iso_20231225: "isoDateTime ''2023-12-25'' = 19716 * DAY"
  by (simp add: isoDateTime_def days_from_civil_def digitsValue_def)

lemma iso_20240101: "isoDateTime ''2024-01-01'' = 19723 * DAY"
  by (simp add: isoDateTime_def days_from_civil_def digitsValue_def)

lemma iso_20240115: "isoDateTime ''2024-01-15'' = 19737 * DAY"
  by (simp add: isoDateTime_def days_from_civil_def digitsValue_def)

lemma toLocaleDateString_midnight_UTC:
  assumes "t mod DAY = 0"
  shows "0 \<le> tz \<Longrightarrow> tz < DAY \<Longrightarrow> toLocaleDateString (fixedZone tz) t = t div DAY"
    and "- DAY \<le> tz \<Longrightarrow> tz < 0 \<Longrightarrow> toLocaleDateString (fixedZone tz) t = t div DAY - 1"
proof -
  from assms have "DAY dvd t"
    by (simp add: mod_eq_0_iff_dvd)
  then obtain k where "t = DAY * k"
    by (rule dvdE)
  then have t: "t = k * DAY"
    by simp
  show "toLocaleDateString (fixedZone tz) t = t div DAY" if "0 \<le> tz" "tz < DAY"
  proof -
    have "(tz + k * DAY) div DAY = k + tz div DAY"
      using DAY_pos by simp
    then show ?thesis
      using that DAY_pos unfolding toLocaleDateString_fixedZone t by (simp add: add.commute)
  qed
  show "toLocaleDateString (fixedZone tz) t = t div DAY - 1" if "- DAY \<le> tz" "tz < 0"
  proof -
    have "(tz + k * DAY) div DAY = k + tz div DAY"
      using DAY_pos by simp
    moreover have "tz div DAY = - 1"
    proof -
      have "(tz + DAY) div DAY = 0"
        using that by (intro div_pos_pos_trivial) simp_all
      moreover have "(tz + DAY) div DAY = tz div DAY + 1"
        using DAY_pos by simp
      ultimately show ?thesis
        by simp
    qed
    ultimately show ?thesis
      using DAY_pos unfolding toLocaleDateString_fixedZone t by (simp add: add.commute)
  qed
qed

lemma isoDateTime_midnight: "isoDateTime s mod DAY = 0"
  by (simp add: isoDateTime_def)

section \<open>The classification tables\<close>

lemma phase_Menstrual: "d \<le> 5 \<Longrightarrow> getCyclePhase d = ''Menstrual''"
  by (simp add: getCyclePhase_def)

lemma phase_Follicular: "6 \<le> d \<Longrightarrow> d \<le> 10 \<Longrightarrow> getCyclePhase d = ''Follicular''"
  by (simp add: getCyclePhase_def)

lemma phase_Ovulatory: "11 \<le> d \<Longrightarrow> d \<le> 14 \<Longrightarrow> getCyclePhase d = ''Ovulatory''"
  by (simp add: getCyclePhase_def)

lemma phase_Luteal: "15 \<le> d \<Longrightarrow> d \<le> 28 \<Longrightarrow> getCyclePhase d = ''Luteal''"
  by (simp add: getCyclePhase_def)

lemma phase_Extended: "28 < d \<Longrightarrow> getCyclePhase d = ''Extended''"
  by (simp add: getCyclePhase_def)

lemma chance_High: "11 \<le> d \<Longrightarrow> d \<le> 17 \<Longrightarrow> getPregnancyChance d = ''High''"
  by (simp add: getPregnancyChance_def)

lemma chance_Medium:
  "(8 \<le> d \<and> d \<le> 10) \<or> (18 \<le> d \<and> d \<le> 20) \<Longrightarrow> getPregnancyChance d = ''Medium''"
  by (auto simp add: getPregnancyChance_def)

lemma chance_Low:
  "\<not> (11 \<le> d \<and> d \<le> 17) \<Longrightarrow> \<not> ((8 \<le> d \<and> d \<le> 10) \<or> (18 \<le> d \<and> d \<le> 20)) \<Longrightarrow>
   getPregnancyChance d = ''Low''"
  by (simp add: getPregnancyChance_def)

lemma phase_range:
  "getCyclePhase d \<in> {''Menstrual'', ''Follicular'', ''Ovulatory'', ''Luteal'', ''Extended''}"
proof -
  consider "d \<le> 5" | "6 \<le> d" "d \<le> 10" | "11 \<le> d" "d \<le> 14" | "15 \<le> d" "d \<le> 28" | "28 < d"
    by linarith
  then show ?thesis
    by cases (simp_all only: phase_Menstrual phase_Follicular phase_Ovulatory phase_Luteal
        phase_Extended insert_iff simp_thms)
qed

lemma chance_range: "getPregnancyChance d \<in> {''High'', ''Medium'', ''Low''}"
proof -
  consider "11 \<le> d \<and> d \<le> 17" | "(8 \<le> d \<and> d \<le> 10) \<or> (18 \<le> d \<and> d \<le> 20)"
    | "\<not> (11 \<le> d \<and> d \<le> 17)" "\<not> ((8 \<le> d \<and> d \<le> 10) \<or> (18 \<le> d \<and> d \<le> 20))"
    by blast
  then show ?thesis
    by cases (simp_all only: chance_High chance_Medium chance_Low insert_iff simp_thms)
qed

text \<open>
  Claim C3. For every positive integer cycle day, \<open>getCyclePhase\<close> returns Menstrual up to
  day 5, Follicular on days 6 to 10, Ovulatory on days 11 to 14, Luteal on days 15 to 28 and
  Extended after day 28; \<open>getPregnancyChance\<close>, which does not look at the phase, returns
  High on days 11 to 17, Medium on days 8 to 10 and 18 to 20, and Low on every other day.
  Each positive day has exactly one of the five phases and exactly one of the three tiers.
\<close>

theorem classification_of_positive_cycle_day:
  assumes "0 < d"
  shows "(d \<le> 5 \<longrightarrow> getCyclePhase d = ''Menstrual'')
       \<and> (6 \<le> d \<and> d \<le> 10 \<longrightarrow> getCyclePhase d = ''Follicular'')
       \<and> (11 \<le> d \<and> d \<le> 14 \<longrightarrow> getCyclePhase d = ''Ovulatory'')
       \<and> (15 \<le> d \<and> d \<le> 28 \<longrightarrow> getCyclePhase d = ''Luteal'')
       \<and> (28 < d \<longrightarrow> getCyclePhase d = ''Extended'')
       \<and> (11 \<le> d \<and> d \<le> 17 \<longrightarrow> getPregnancyChance d = ''High'')
       \<and> ((8 \<le> d \<and> d \<le> 10) \<or> (18 \<le> d \<and> d \<le> 20) \<longrightarrow> getPregnancyChance d = ''Medium'')
       \<and> (\<not> (11 \<le> d \<and> d \<le> 17) \<and> \<not> ((8 \<le> d \<and> d \<le> 10) \<or> (18 \<le> d \<and> d \<le> 20))
            \<longrightarrow> getPregnancyChance d = ''Low'')
       \<and> (\<exists>!p. p \<in> {''Menstrual'', ''Follicular'', ''Ovulatory'', ''Luteal'', ''Extended''}
                \<and> getCyclePhase d = p)
       \<and> (\<exists>!c. c \<in> {''High'', ''Medium'', ''Low''} \<and> getPregnancyChance d = c)"
proof -
  have p: "\<exists>!p. p \<in> {''Menstrual'', ''Follicular'', ''Ovulatory'', ''Luteal'', ''Extended''}
                \<and> getCyclePhase d = p"
    using phase_range [of d] by (intro ex1I [of _ "getCyclePhase d"]) (simp_all only: simp_thms)
  have c: "\<exists>!c. c \<in> {''High'', ''Medium'', ''Low''} \<and> getPregnancyChance d = c"
    using chance_range [of d] by (intro ex1I [of _ "getPregnancyChance d"]) (simp_all only: simp_thms)
  show ?thesis
    using p c phase_Menstrual [of d] phase_Follicular [of d] phase_Ovulatory [of d]
      phase_Luteal [of d] phase_Extended [of d] chance_High [of d] chance_Medium [of d]
      chance_Low [of d]
    by (intro conjI impI) (simp_all only: simp_thms)
qed

theorem classification_of_positive_cycle_day_witness:
  "(0::int) < 5 \<and> (5::int) \<le> 5 \<and> getCyclePhase 5 = ''Menstrual'' \<and> getPregnancyChance 5 = ''Low''
   \<and> (0::int) < 8 \<and> (6::int) \<le> 8 \<and> (8::int) \<le> 10
   \<and> getCyclePhase 8 = ''Follicular'' \<and> getPregnancyChance 8 = ''Medium''
   \<and> (0::int) < 12 \<and> (11::int) \<le> 12 \<and> (12::int) \<le> 14
   \<and> getCyclePhase 12 = ''Ovulatory'' \<and> getPregnancyChance 12 = ''High''
   \<and> (0::int) < 15 \<and> (15::int) \<le> 15 \<and> (15::int) \<le> 28
   \<and> getCyclePhase 15 = ''Luteal'' \<and> getPregnancyChance 15 = ''High''
   \<and> (0::int) < 29 \<and> (28::int) < 29
   \<and> getCyclePhase 29 = ''Extended'' \<and> getPregnancyChance 29 = ''Low''"
  using classification_of_positive_cycle_day [of 5] classification_of_positive_cycle_day [of 8]
    classification_of_positive_cycle_day [of 12] classification_of_positive_cycle_day [of 15]
    classification_of_positive_cycle_day [of 29]
  by simp

section \<open>The cycle day\<close>

lemma getCurrentCycleDay_Some:
  "currentDate \<noteq> [] \<Longrightarrow>
   getCurrentCycleDay tm now startDate (Some currentDate)
     = (tm currentDate - tm startDate) div DAY + 1"
  unfolding getCurrentCycleDay_def Let_def floor_days by simp

lemma getCurrentCycleDay_before:
  assumes "currentDate \<noteq> []" and "tm currentDate < tm startDate"
  shows "getCurrentCycleDay tm now startDate (Some currentDate) \<le> 0"
proof -
  have "(tm currentDate - tm startDate) div DAY < 0"
    using assms(2) DAY_pos by (simp add: div_neg_pos_less0)
  then show ?thesis
    using assms(1) by (simp add: getCurrentCycleDay_Some)
qed

text \<open>
  Claim C5. For every start date and every reference date, \<open>getCurrentCycleDay\<close> returns the
  floor of the difference of the two in days, plus one, and clamps nothing: a reference
  date on the start day gives 1, a reference date before the start gives a result that is
  zero or negative, and for the start 2024-01-01 the references 2024-01-01 and 2024-01-15
  give 1 and 15.
\<close>

theorem getCurrentCycleDay_floor_plus_one:
  assumes "currentDate \<noteq> []"
  shows "getCurrentCycleDay tm now startDate (Some currentDate)
           = (tm currentDate - tm startDate) div DAY + 1
       \<and> (0 \<le> tm currentDate - tm startDate \<and> tm currentDate - tm startDate < DAY
            \<longrightarrow> getCurrentCycleDay tm now startDate (Some currentDate) = 1)
       \<and> (tm currentDate < tm startDate
            \<longrightarrow> getCurrentCycleDay tm now startDate (Some currentDate) \<le> 0)
       \<and> getCurrentCycleDay isoDateTime now ''2024-01-01'' (Some ''2024-01-01'') = 1
       \<and> getCurrentCycleDay isoDateTime now ''2024-01-01'' (Some ''2024-01-15'') = 15"
proof -
  let ?r = "getCurrentCycleDay tm now startDate (Some currentDate)"
  have eq: "?r = (tm currentDate - tm startDate) div DAY + 1"
    using assms by (rule getCurrentCycleDay_Some)
  have same: "0 \<le> tm currentDate - tm startDate \<and> tm currentDate - tm startDate < DAY \<longrightarrow> ?r = 1"
    by (simp add: eq)
  have before: "tm currentDate < tm startDate \<longrightarrow> ?r \<le> 0"
    using assms by (simp add: getCurrentCycleDay_before)
  have s1: "getCurrentCycleDay isoDateTime now ''2024-01-01'' (Some ''2024-01-01'') = 1"
    by (simp add: getCurrentCycleDay_Some)
  have s2: "getCurrentCycleDay isoDateTime now ''2024-01-01'' (Some ''2024-01-15'') = 15"
    using DAY_pos
    by (simp add: getCurrentCycleDay_Some iso_20240101 iso_20240115 flip: left_diff_distrib)
  show ?thesis
    using eq same before s1 s2 by (simp only: simp_thms)
qed

theorem getCurrentCycleDay_floor_plus_one_witness:
  "''2023-12-25'' \<noteq> [] \<and> isoDateTime ''2023-12-25'' < isoDateTime ''2024-01-01''
   \<and> getCurrentCycleDay isoDateTime 0 ''2024-01-01'' (Some ''2023-12-25'') = - 6
   \<and> 0 \<le> isoDateTime ''2024-01-15'' - isoDateTime ''2024-01-15''
   \<and> isoDateTime ''2024-01-15'' - isoDateTime ''2024-01-15'' < DAY
   \<and> getCurrentCycleDay isoDateTime 0 ''2024-01-15'' (Some ''2024-01-15'') = 1"
  using getCurrentCycleDay_floor_plus_one
      [where currentDate = "''2023-12-25''" and tm = isoDateTime and now = 0
        and startDate = "''2024-01-01''"]
    getCurrentCycleDay_floor_plus_one
      [where currentDate = "''2024-01-15''" and tm = isoDateTime and now = 0
        and startDate = "''2024-01-15''"]
  by (simp add: iso_20231225 iso_20240101 DAY_def)

text \<open>
  Claim C9. For every cycle day that is zero or negative, \<open>getCyclePhase\<close> returns Menstrual
  and \<open>getPregnancyChance\<close> returns Low. Both classifiers are total over the integers, and
  \<open>getCycleInfo\<close> for a reference date before the start reports such a day as a menstrual,
  low-chance day, with no signal that the date is outside the cycle.
\<close>

theorem classification_of_nonpositive_cycle_day:
  "(d \<le> 0 \<longrightarrow> getCyclePhase d = ''Menstrual'' \<and> getPregnancyChance d = ''Low'')
   \<and> (currentDate \<noteq> [] \<and> tm currentDate < tm startDate \<longrightarrow>
        c_cycleDay (getCycleInfo tm now startDate (Some currentDate) cycleLength) \<le> 0
        \<and> c_phase (getCycleInfo tm now startDate (Some currentDate) cycleLength) = ''Menstrual''
        \<and> c_pregnancyChance (getCycleInfo tm now startDate (Some currentDate) cycleLength) = ''Low'')"
proof -
  have day: "e \<le> 0 \<Longrightarrow> getCyclePhase e = ''Menstrual'' \<and> getPregnancyChance e = ''Low''" for e
    by (simp add: phase_Menstrual chance_Low)
  have info: "c_cycleDay (getCycleInfo tm now startDate (Some currentDate) cycleLength) \<le> 0
        \<and> c_phase (getCycleInfo tm now startDate (Some currentDate) cycleLength) = ''Menstrual''
        \<and> c_pregnancyChance (getCycleInfo tm now startDate (Some currentDate) cycleLength) = ''Low''"
    if "currentDate \<noteq> []" and "tm currentDate < tm startDate"
    using day [OF getCurrentCycleDay_before [OF that, of now]] getCurrentCycleDay_before [OF that, of now]
    by (simp add: getCycleInfo_def Let_def)
  show ?thesis
    using day [of d] info by blast
qed

theorem classification_of_nonpositive_cycle_day_witness:
  "(0::int) \<le> 0 \<and> getCyclePhase 0 = ''Menstrual'' \<and> getPregnancyChance 0 = ''Low''
   \<and> ''2023-12-25'' \<noteq> [] \<and> isoDateTime ''2023-12-25'' < isoDateTime ''2024-01-01''
   \<and> c_phase (getCycleInfo isoDateTime 0 ''2024-01-01'' (Some ''2023-12-25'') None) = ''Menstrual''
   \<and> c_pregnancyChance (getCycleInfo isoDateTime 0 ''2024-01-01'' (Some ''2023-12-25'') None) = ''Low''"
  using classification_of_nonpositive_cycle_day
      [where d = 0 and currentDate = "''2023-12-25''" and tm = isoDateTime and now = 0
        and startDate = "''2024-01-01''" and cycleLength = None]
    DAY_pos
  by (simp add: iso_20231225 iso_20240101)

section \<open>Ovulation day and fertility window\<close>

lemma getOvulationDay_eq:
  "getOvulationDay tm z startDate cycleLength
     = toLocaleDateString z (setDate_plus z (tm startDate)
         ((case cycleLength of None \<Rightarrow> 28 | Some n \<Rightarrow> if n = 0 then 28 else n) - 14))"
  by (simp add: getOvulationDay_def Let_def)





text \<open>
  Where the code does what claim C6 says: for a date-only start and a cycle length other
  than 0, in a zone at a fixed offset from UTC up to 24 hours east, the ovulation day is
  the start plus the length minus 14 days; west of UTC it is one day earlier. Where the
  rendered text is read back as the same day (en-US), the window ends on the ovulation day
  and starts 5 days before it.
\<close>

lemma getOvulationDay_fixedZone:
  assumes "L \<noteq> 0"
  shows "0 \<le> tz \<Longrightarrow> tz < DAY \<Longrightarrow>
         getOvulationDay isoDateTime (fixedZone tz) startDate (Some L)
           = isoDateTime startDate div DAY + (L - 14)"
    and "- DAY \<le> tz \<Longrightarrow> tz < 0 \<Longrightarrow>
         getOvulationDay isoDateTime (fixedZone tz) startDate (Some L)
           = isoDateTime startDate div DAY + (L - 14) - 1"
  using assms
  by (simp_all add: getOvulationDay_eq toLocaleDateString_setDate_plus
      toLocaleDateString_midnight_UTC [OF isoDateTime_midnight])

lemma getOvulationDay_Some_default:
  "getOvulationDay tm z startDate
     (Some (case cycleLength of None \<Rightarrow> 28 | Some n \<Rightarrow> if n = 0 then 28 else n))
     = getOvulationDay tm z startDate cycleLength"
  by (simp add: getOvulationDay_eq split: option.split)

lemma toLocaleDateString_parse_enUS:
  "toLocaleDateString (fixedZone tz) (setDate_plus (fixedZone tz) (UTC (fixedZone tz) (day * DAY)) n)
     = day + n"
  using DAY_pos
  by (simp add: toLocaleDateString_setDate_plus) (simp add: toLocaleDateString_fixedZone UTC_fixedZone)

lemma getFertilityWindow_enUS:
  "w_end (getFertilityWindow tm (fixedZone tz) (parse_enUS (fixedZone tz)) startDate cycleLength)
     = getOvulationDay tm (fixedZone tz) startDate cycleLength"
  "w_start (getFertilityWindow tm (fixedZone tz) (parse_enUS (fixedZone tz)) startDate cycleLength)
     = Some (getOvulationDay tm (fixedZone tz) startDate cycleLength - 5)"
  by (simp_all add: getFertilityWindow_def Let_def parse_enUS_def getOvulationDay_Some_default
      toLocaleDateString_parse_enUS)

text \<open>
  Claim C6 says that the ovulation day is the start plus \<open>L - 14\<close> days and that the
  fertility window ends on the ovulation day and starts 5 days before it. The code departs
  from both. In a zone 5 hours west of UTC, the start 2024-01-01 with the length 28 gives the
  ovulation day 2024-01-14, not 2024-01-15: the date-only string is read as midnight UTC,
  which is the evening before in local time, and the local day is rendered. Where the
  rendered ovulation day is the day/month/year text of en-GB and is read back as
  month/day/year, the start 2023-12-23 gives the ovulation day 2024-01-06 and the window
  start 2024-05-27, and the start 2024-01-01 gives the ovulation day 2024-01-15 and an
  invalid date as the window start.
\<close>

theorem getOvulationDay_getFertilityWindow_zone_and_locale:
  "civil_from_days (getOvulationDay isoDateTime (fixedZone (- 5 * 3600000)) ''2024-01-01'' (Some 28))
     = (2024, 1, 14)
   \<and> civil_from_days (isoDateTime ''2024-01-01'' div DAY + (28 - 14)) = (2024, 1, 15)
   \<and> civil_from_days (w_ovulationDay (getFertilityWindow isoDateTime (fixedZone 0)
        (parse_enGB (fixedZone 0)) ''2023-12-23'' (Some 28))) = (2024, 1, 6)
   \<and> map_option civil_from_days (w_start (getFertilityWindow isoDateTime (fixedZone 0)
        (parse_enGB (fixedZone 0)) ''2023-12-23'' (Some 28))) = Some (2024, 5, 27)
   \<and> civil_from_days (w_ovulationDay (getFertilityWindow isoDateTime (fixedZone 0)
        (parse_enGB (fixedZone 0)) ''2024-01-01'' (Some 28))) = (2024, 1, 15)
   \<and> w_start (getFertilityWindow isoDateTime (fixedZone 0)
        (parse_enGB (fixedZone 0)) ''2024-01-01'' (Some 28)) = None"
  by code_simp

section \<open>Episode grouping\<close>

lemma fold_upt_Suc: "m \<le> n \<Longrightarrow> fold f [m..<Suc n] s = f n (fold f [m..<n] s)"
  by simp

lemma groupStep_invariant:
  assumes "1 \<le> j" and "j \<le> length xs"
  shows "concat (fst (fold (groupStep tm xs) [1..<j] ([], [xs ! 0])))
           @ snd (fold (groupStep tm xs) [1..<j] ([], [xs ! 0])) = take j xs
       \<and> snd (fold (groupStep tm xs) [1..<j] ([], [xs ! 0])) \<noteq> []
       \<and> [] \<notin> set (fst (fold (groupStep tm xs) [1..<j] ([], [xs ! 0])))"
  using assms
proof (induction j rule: dec_induct)
  case base
  then have "xs \<noteq> []" by auto
  then show ?case
    by (simp add: take_Suc hd_conv_nth)
next
  case (step n)
  then have n: "n < length xs" and ih: "concat (fst (fold (groupStep tm xs) [1..<n] ([], [xs ! 0])))
           @ snd (fold (groupStep tm xs) [1..<n] ([], [xs ! 0])) = take n xs"
     "snd (fold (groupStep tm xs) [1..<n] ([], [xs ! 0])) \<noteq> []"
     "[] \<notin> set (fst (fold (groupStep tm xs) [1..<n] ([], [xs ! 0])))"
    by simp_all
  obtain ps cur where st: "fold (groupStep tm xs) [1..<n] ([], [xs ! 0]) = (ps, cur)"
    by (cases "fold (groupStep tm xs) [1..<n] ([], [xs ! 0])")
  have nx: "fold (groupStep tm xs) [1..<Suc n] ([], [xs ! 0]) = groupStep tm xs n (ps, cur)"
    using step.hyps(1) by (simp only: fold_upt_Suc st)
  show ?case
    using ih n unfolding nx st
    by (simp add: groupStep_def Let_def take_Suc_conv_app_nth)
qed

lemma groupPeriods_parts:
  assumes "xs \<noteq> []"
  obtains ps cur where "groupPeriods tm xs = ps @ [cur]" and "concat ps @ cur = xs"
    and "cur \<noteq> []" and "[] \<notin> set ps"
proof -
  obtain ps cur where st: "fold (groupStep tm xs) [1..<length xs] ([], [xs ! 0]) = (ps, cur)"
    by (cases "fold (groupStep tm xs) [1..<length xs] ([], [xs ! 0])")
  have len: "1 \<le> length xs"
    using assms by (cases xs) simp_all
  have "concat ps @ cur = xs \<and> cur \<noteq> [] \<and> [] \<notin> set ps"
    using groupStep_invariant [OF len order_refl, of tm] unfolding st by simp
  moreover have "groupPeriods tm xs = ps @ [cur]"
    unfolding groupPeriods_def st by simp
  ultimately show thesis
    using that by blast
qed

lemma groupPeriods_concat: "xs \<noteq> [] \<Longrightarrow> concat (groupPeriods tm xs) = xs"
  by (erule groupPeriods_parts [of xs tm]) simp

lemma groupPeriods_no_empty: "xs \<noteq> [] \<Longrightarrow> [] \<notin> set (groupPeriods tm xs)"
  by (erule groupPeriods_parts [of xs tm]) simp

lemma groupPeriods_short: "length xs < 2 \<Longrightarrow> groupPeriods tm xs = [[xs ! 0]]"
  by (simp add: groupPeriods_def)

lemma sortDates_sorted: "sorted (map (\<lambda>a. - tm a) (sortDates tm dates))"
  unfolding sortDates_def by (rule sorted_sort_key)

lemma sortDates_idem: "sortDates tm (sortDates tm dates) = sortDates tm dates"
  using sortDates_sorted [of tm dates] unfolding sortDates_def by (rule sort_key_id_if_sorted)

lemma sortDates_Nil_iff: "sortDates tm dates = [] \<longleftrightarrow> dates = []"
  using length_sort [of "\<lambda>a. - tm a" dates] unfolding sortDates_def by (metis length_0_conv)

text \<open>
  Two neighbouring episodes are cut where the dates are more than 7 days apart: the last
  date of an episode is more than 7 days after the first date of the next one.
\<close>

lemma successively_nth:
  "successively P xs \<Longrightarrow> Suc i < length xs \<Longrightarrow> P (xs ! i) (xs ! Suc i)"
proof (induction P xs arbitrary: i rule: successively.induct)
  case (3 P x y xs)
  then show ?case by (cases i) simp_all
qed simp_all

lemma dayDiff_le_7: "\<bar>(of_int a :: rat) / of_int DAY\<bar> \<le> 7 \<longleftrightarrow> \<bar>a\<bar> \<le> 7 * DAY"
proof -
  have "\<bar>(of_int a :: rat) / of_int DAY\<bar> = of_int \<bar>a\<bar> / of_int DAY"
    using DAY_pos by simp
  also have "\<dots> \<le> 7 \<longleftrightarrow> (of_int \<bar>a\<bar> :: rat) \<le> of_int (7 * DAY)"
    using DAY_pos by (simp add: pos_divide_le_eq)
  also have "\<dots> \<longleftrightarrow> \<bar>a\<bar> \<le> 7 * DAY"
    by (rule of_int_le_iff)
  finally show ?thesis .
qed

lemma groupStep_separates:
  fixes tm :: "string \<Rightarrow> int"
  assumes "sorted (map (\<lambda>a. - tm a) xs)" and "1 \<le> j" and "j \<le> length xs"
  shows "successively (\<lambda>g h. 7 * DAY < tm (last g) - tm (hd h))
           (fst (fold (groupStep tm xs) [1..<j] ([], [xs ! 0]))
              @ [snd (fold (groupStep tm xs) [1..<j] ([], [xs ! 0]))])"
  using assms(2,3)
proof (induction j rule: dec_induct)
  case base
  then show ?case by simp
next
  case (step n)
  let ?P = "\<lambda>g h. 7 * DAY < tm (last g) - tm (hd h)"
  obtain ps cur where st: "fold (groupStep tm xs) [1..<n] ([], [xs ! 0]) = (ps, cur)"
    by (cases "fold (groupStep tm xs) [1..<n] ([], [xs ! 0])")
  have n: "n < length xs" and n1: "1 \<le> n" "n \<le> length xs"
    using step by simp_all
  have ih: "successively ?P (ps @ [cur])"
    using step.IH n unfolding st by simp
  have inv: "concat ps @ cur = take n xs" "cur \<noteq> []"
    using groupStep_invariant [OF n1, of tm] unfolding st by simp_all
  have "last cur = last (concat ps @ cur)"
    using inv(2) by simp
  also have "\<dots> = last (take n xs)"
    by (simp only: inv)
  also have "\<dots> = take n xs ! (length (take n xs) - 1)"
    using n n1 by (intro last_conv_nth) auto
  also have "\<dots> = xs ! (n - 1)"
    using n n1 by simp
  finally have lastcur: "last cur = xs ! (n - 1)" .
  have ord: "tm (xs ! n) \<le> tm (xs ! (n - 1))"
    using sorted_nth_mono [OF assms(1), of "n - 1" n] n n1 by simp
  have nx: "fold (groupStep tm xs) [1..<Suc n] ([], [xs ! 0]) = groupStep tm xs n (ps, cur)"
    using step.hyps(1) by (simp only: fold_upt_Suc st)
  show ?case
  proof (cases "\<bar>tm (xs ! n) - tm (xs ! (n - 1))\<bar> \<le> 7 * DAY")
    case True
    then have "groupStep tm xs n (ps, cur) = (ps, cur @ [xs ! n])"
      unfolding groupStep_def Let_def dayDiff_le_7 by simp
    then show ?thesis
      unfolding nx using ih inv(2) by (simp add: successively_append_iff)
  next
    case False
    then have g: "groupStep tm xs n (ps, cur) = (ps @ [cur], [xs ! n])"
      unfolding groupStep_def Let_def dayDiff_le_7 by simp
    have "7 * DAY < tm (xs ! (n - 1)) - tm (xs ! n)"
      using False ord by linarith
    then show ?thesis
      unfolding nx g using ih by (simp add: successively_append_iff lastcur)
  qed
qed

lemma groupPeriods_separated:
  fixes tm :: "string \<Rightarrow> int"
  assumes "xs \<noteq> []" and "sorted (map (\<lambda>a. - tm a) xs)"
  shows "successively (\<lambda>g h. 7 * DAY < tm (last g) - tm (hd h)) (groupPeriods tm xs)"
proof -
  obtain ps cur where st: "fold (groupStep tm xs) [1..<length xs] ([], [xs ! 0]) = (ps, cur)"
    by (cases "fold (groupStep tm xs) [1..<length xs] ([], [xs ! 0])")
  have len: "1 \<le> length xs"
    using assms(1) by (cases xs) simp_all
  have "successively (\<lambda>g h. 7 * DAY < tm (last g) - tm (hd h)) (ps @ [cur])"
    using groupStep_separates [OF assms(2) len order_refl] unfolding st by simp
  moreover have "groupPeriods tm xs = ps @ [cur]"
    unfolding groupPeriods_def st by simp
  ultimately show ?thesis
    by simp
qed

text \<open>
  Claim C7. Grouping is idempotent: for every list of saved dates, either the list is
  empty and nothing is grouped, or the dates are sorted latest first and cut into episodes
  wherever two neighbours are more than 7 days apart, and grouping the concatenation of
  these episodes again gives the same episodes.
\<close>

theorem grouping_idempotent:
  "case loadStatistics_periods tm saved of
     None \<Rightarrow> saved = []
   | Some periods \<Rightarrow> loadStatistics_periods tm (concat periods) = Some periods"
proof (cases "saved = []")
  case True
  then show ?thesis by (simp add: loadStatistics_periods_def)
next
  case False
  then have ne: "sortDates tm saved \<noteq> []"
    by (simp add: sortDates_Nil_iff)
  have "concat (groupPeriods tm (sortDates tm saved)) = sortDates tm saved"
    using ne by (rule groupPeriods_concat)
  then show ?thesis
    using False ne by (simp add: loadStatistics_periods_def sortDates_idem)
qed

theorem grouping_idempotent_witness:
  "loadStatistics_periods isoDateTime [''2024-01-01'', ''2024-01-29'', ''2024-01-02'']
     = Some [[''2024-01-29''], [''2024-01-02'', ''2024-01-01'']]
   \<and> loadStatistics_periods isoDateTime (concat [[''2024-01-29''], [''2024-01-02'', ''2024-01-01'']])
     = Some [[''2024-01-29''], [''2024-01-02'', ''2024-01-01'']]"
proof -
  have e: "loadStatistics_periods isoDateTime [''2024-01-01'', ''2024-01-29'', ''2024-01-02'']
     = Some [[''2024-01-29''], [''2024-01-02'', ''2024-01-01'']]"
    by code_simp
  show ?thesis
    using grouping_idempotent [where tm = isoDateTime and saved = "[''2024-01-01'', ''2024-01-29'', ''2024-01-02'']"]
    unfolding e by simp
qed

section \<open>The episodes of the specification\<close>

text \<open>
  The grouping loop of the code computes the episodes that the walk of the specification
  describes.
\<close>

lemma spec_walk_fold:
  assumes "1 \<le> j" and "j \<le> length xs" and "cur \<noteq> []" and "last cur = xs ! (j - 1)"
  shows "(case fold (groupStep tm xs) [j..<length xs] (ps, cur) of (p, c) \<Rightarrow> p @ [c])
           = spec_walk tm ps cur (drop j xs)"
  using assms
proof (induction "length xs - j" arbitrary: j ps cur)
  case 0
  then show ?case by simp
next
  case (Suc n)
  then have j: "j < length xs"
    by simp
  have up: "[j..<length xs] = j # [Suc j..<length xs]"
    using j by (rule upt_conv_Cons)
  have dr: "drop j xs = xs ! j # drop (Suc j) xs"
    using j by (simp add: Cons_nth_drop_Suc)
  have n: "n = length xs - Suc j"
    using Suc.hyps(2) by simp
  show ?case
  proof (cases "\<bar>tm (xs ! j) - tm (xs ! (j - 1))\<bar> \<le> 7 * DAY")
    case True
    then have st: "groupStep tm xs j (ps, cur) = (ps, cur @ [xs ! j])"
      unfolding groupStep_def Let_def dayDiff_le_7 by simp
    have "(case fold (groupStep tm xs) [Suc j..<length xs] (ps, cur @ [xs ! j]) of (p, c) \<Rightarrow> p @ [c])
            = spec_walk tm ps (cur @ [xs ! j]) (drop (Suc j) xs)"
      using j by (intro Suc.hyps(1) [OF n]) simp_all
    then show ?thesis
      unfolding up dr using True Suc.prems(4) by (simp add: st)
  next
    case False
    then have st: "groupStep tm xs j (ps, cur) = (ps @ [cur], [xs ! j])"
      unfolding groupStep_def Let_def dayDiff_le_7 by simp
    have "(case fold (groupStep tm xs) [Suc j..<length xs] (ps @ [cur], [xs ! j]) of (p, c) \<Rightarrow> p @ [c])
            = spec_walk tm (ps @ [cur]) [xs ! j] (drop (Suc j) xs)"
      using j by (intro Suc.hyps(1) [OF n]) simp_all
    then show ?thesis
      unfolding up dr using False Suc.prems(4) by (simp add: st)
  qed
qed

lemma groupPeriods_spec_walk: "groupPeriods tm (d # ds) = spec_walk tm [] [d] ds"
  using spec_walk_fold [of 1 "d # ds" "[d]" tm "[]"]
  by (simp add: groupPeriods_def split_beta)

lemma spec_episodes_groupPeriods:
  "dates \<noteq> [] \<Longrightarrow> spec_episodes tm dates = groupPeriods tm (sortDates tm dates)"
proof -
  assume "dates \<noteq> []"
  then have "sortDates tm dates \<noteq> []"
    by (simp add: sortDates_Nil_iff)
  then obtain d ds where s: "sortDates tm dates = d # ds"
    by (cases "sortDates tm dates") simp_all
  then have s': "sort_key (\<lambda>d. - tm d) dates = d # ds"
    by (simp add: sortDates_def)
  show ?thesis
    unfolding spec_episodes_def s' s by (simp add: groupPeriods_spec_walk)
qed

section \<open>Rounding to doubles\<close>

text \<open>
  Rounding to the nearest double changes a value by at most the fraction \<open>2^-53\<close> of it.
  \<open>near c x' x\<close> bounds the relative error of \<open>x'\<close> by \<open>c\<close> such fractions; sums, products
  with an exact factor and quotients of non-negative values keep such bounds.
\<close>

lemma roundHalfEven_err: "\<bar>of_int (roundHalfEven y) - y\<bar> \<le> 1 / 2"
proof -
  define f where "f = \<lfloor>y\<rfloor>"
  define r where "r = y - of_int f"
  have r: "0 \<le> r" "r < 1"
    unfolding r_def f_def by linarith+
  have y: "y = of_int f + r"
    by (simp add: r_def)
  have "roundHalfEven y = f \<and> r \<le> 1 / 2 \<or> roundHalfEven y = f + 1 \<and> 1 / 2 \<le> r"
    unfolding roundHalfEven_def Let_def f_def [symmetric] r_def [symmetric] by auto
  then show ?thesis
  proof
    assume "roundHalfEven y = f \<and> r \<le> 1 / 2"
    then show ?thesis
      using r unfolding y by simp
  next
    assume "roundHalfEven y = f + 1 \<and> 1 / 2 \<le> r"
    then show ?thesis
      using r unfolding y by simp
  qed
qed

lemma binade_le:
  assumes "x \<noteq> 0"
  shows "2 powi binade x \<le> \<bar>x\<bar>"
proof -
  obtain p q where pq: "quotient_of \<bar>x\<bar> = (p, q)"
    by (cases "quotient_of \<bar>x\<bar>")
  have q: "0 < q"
    using pq by (rule quotient_of_denom_pos)
  have x: "\<bar>x\<bar> = of_int p / of_int q"
    using pq by (rule quotient_of_div)
  have "0 < \<bar>x\<bar>"
    using assms by simp
  then have p: "0 < p"
    using q unfolding x by (simp add: zero_less_divide_iff)
  let ?e = "bitlen p - bitlen q"
  have b: "binade x = (if 2 powi ?e \<le> \<bar>x\<bar> then ?e else ?e - 1)"
    by (simp add: binade_def pq Let_def)
  show ?thesis
  proof (cases "2 powi ?e \<le> \<bar>x\<bar>")
    case True
    then show ?thesis
      by (simp add: b)
  next
    case False
    have bp: "2 ^ nat (bitlen p - 1) \<le> p" and bq: "q < 2 ^ nat (bitlen q)"
      using bitlen_bounds [OF p] bitlen_bounds [OF q] by simp_all
    have p1: "1 \<le> bitlen p" and q1: "0 \<le> bitlen q"
      using p bitlen_nonneg [of q] by (simp_all add: bitlen_alt_def)
    have "?e - 1 = (bitlen p - 1) - bitlen q"
      by simp
    then have "(2::rat) powi (?e - 1) = 2 powi ((bitlen p - 1) - bitlen q)"
      by (simp only:)
    also have "\<dots> = 2 powi (bitlen p - 1) / 2 powi bitlen q"
      by (rule power_int_diff) simp
    also have "\<dots> = 2 ^ nat (bitlen p - 1) / 2 ^ nat (bitlen q)"
      using p1 q1 by (simp add: power_int_def)
    also have "\<dots> \<le> of_int p / 2 ^ nat (bitlen q)"
    proof -
      have "(2::rat) ^ nat (bitlen p - 1) \<le> of_int p"
        using bp by (metis of_int_le_iff of_int_numeral of_int_power)
      then show ?thesis
        by (simp add: divide_right_mono)
    qed
    also have "\<dots> \<le> of_int p / of_int q"
    proof -
      have "(of_int q :: rat) \<le> 2 ^ nat (bitlen q)"
        using bq by (metis less_imp_le of_int_le_iff of_int_numeral of_int_power)
      then show ?thesis
        using p q by (intro divide_left_mono) simp_all
    qed
    finally have "2 powi (?e - 1) \<le> \<bar>x\<bar>"
      by (simp only: x)
    then show ?thesis
      using False by (simp only: b if_False)
  qed
qed

lemma double_err: "\<bar>double x - x\<bar> \<le> \<bar>x\<bar> / 2 ^ 53"
proof (cases "x = 0")
  case True
  then show ?thesis by (simp add: double_def)
next
  case False
  define ulp :: rat where "ulp = 2 powi (binade x - 52)"
  have ulp: "0 < ulp"
    by (simp add: ulp_def)
  have d: "double x = of_int (roundHalfEven (x / ulp)) * ulp"
    using False by (simp add: double_def ulp_def Let_def)
  have "\<bar>double x - x\<bar> = \<bar>of_int (roundHalfEven (x / ulp)) - x / ulp\<bar> * ulp"
  proof -
    have "double x - x = (of_int (roundHalfEven (x / ulp)) - x / ulp) * ulp"
      using ulp by (simp add: d field_simps)
    then show ?thesis
      using ulp by (simp add: abs_mult)
  qed
  also have "\<dots> \<le> 1 / 2 * ulp"
    using ulp roundHalfEven_err [of "x / ulp"] by (intro mult_right_mono) simp_all
  also have "\<dots> = 2 powi binade x / 2 ^ 53"
    by (simp add: ulp_def power_int_diff)
  also have "\<dots> \<le> \<bar>x\<bar> / 2 ^ 53"
    using binade_le [OF False] by (simp add: divide_right_mono)
  finally show ?thesis .
qed

lemma near_mono: "near c x' x \<Longrightarrow> c \<le> d \<Longrightarrow> 0 \<le> x \<Longrightarrow> near d x' x"
proof -
  assume a: "near c x' x" "c \<le> d" "0 \<le> x"
  have "c * (1 / 2 ^ 53) * x \<le> d * (1 / 2 ^ 53) * x"
    using a(2,3) by (intro mult_right_mono) simp_all
  then show ?thesis
    using a(1) unfolding near_def by linarith
qed

lemma near_add: "near c a' a \<Longrightarrow> near c b' b \<Longrightarrow> near c (a' + b') (a + b)"
proof -
  assume a: "near c a' a" "near c b' b"
  have "\<bar>a' + b' - (a + b)\<bar> \<le> \<bar>a' - a\<bar> + \<bar>b' - b\<bar>"
    by linarith
  also have "\<dots> \<le> c * (1 / 2 ^ 53) * a + c * (1 / 2 ^ 53) * b"
    using a unfolding near_def by linarith
  also have "\<dots> = c * (1 / 2 ^ 53) * (a + b)"
    by (simp add: algebra_simps)
  finally show ?thesis
    unfolding near_def .
qed

lemma near_scale: "near c w' w \<Longrightarrow> 0 \<le> g \<Longrightarrow> near c (g * w') (g * w)"
proof -
  assume a: "near c w' w" "0 \<le> g"
  have "\<bar>g * w' - g * w\<bar> = g * \<bar>w' - w\<bar>"
    using a(2) by (simp add: abs_mult flip: right_diff_distrib)
  also have "\<dots> \<le> g * (c * (1 / 2 ^ 53) * w)"
    using a unfolding near_def by (intro mult_left_mono) simp_all
  also have "\<dots> = c * (1 / 2 ^ 53) * (g * w)"
    by simp
  finally show ?thesis
    unfolding near_def .
qed

lemma near_double:
  assumes "near c x' x" and "0 \<le> x" and "0 \<le> c" and "c \<le> 2 ^ 53"
  shows "near (c + 2) (double x') x"
proof -
  have cu: "c * (1 / 2 ^ 53) \<le> 1"
    using assms(4) by simp
  have d: "\<bar>x' - x\<bar> \<le> c * (1 / 2 ^ 53) * x"
    using assms(1) unfolding near_def .
  have "c * (1 / 2 ^ 53) * x \<le> 1 * x"
    using cu assms(2) by (intro mult_right_mono)
  then have "\<bar>x'\<bar> \<le> 2 * x"
    using d assms(2) by linarith
  then have "\<bar>x'\<bar> / 2 ^ 53 \<le> 2 * x / 2 ^ 53"
    by (simp add: divide_right_mono)
  then have "\<bar>double x' - x'\<bar> \<le> 2 * (1 / 2 ^ 53) * x"
    using double_err [of x'] by simp
  then have "\<bar>double x' - x\<bar> \<le> 2 * (1 / 2 ^ 53) * x + c * (1 / 2 ^ 53) * x"
    using d by linarith
  also have "\<dots> = (c + 2) * (1 / 2 ^ 53) * x"
    by (simp add: algebra_simps)
  finally show ?thesis
    unfolding near_def .
qed

lemma near_divide:
  assumes x: "near a x' x" and y: "near b y' y"
    and "0 \<le> x" and "0 < y" and "0 \<le> a" and "0 \<le> b" and "b \<le> 2 ^ 52"
  shows "near (2 * (a + b)) (x' / y') (x / y)"
proof -
  define u :: rat where "u = 1 / 2 ^ 53"
  have u: "0 \<le> u"
    by (simp add: u_def)
  have dx: "\<bar>x' - x\<bar> \<le> a * u * x" and dy: "\<bar>y' - y\<bar> \<le> b * u * y"
    using x y unfolding near_def u_def by simp_all
  have "b * u \<le> 1 / 2"
    using assms(7) by (simp add: u_def)
  then have "b * u * y \<le> 1 / 2 * y"
    using assms(4) by (intro mult_right_mono) simp_all
  then have y': "y / 2 \<le> y'"
    using dy by linarith
  then have y'pos: "0 < y'"
    using assms(4) by linarith
  have "x' / y' - x / y = (x' * y - x * y') / (y' * y)"
    using y'pos assms(4) by (simp add: diff_frac_eq)
  then have "\<bar>x' / y' - x / y\<bar> = \<bar>x' * y - x * y'\<bar> / (y' * y)"
    using y'pos assms(4) by (simp add: abs_mult)
  moreover have "\<bar>x' * y - x * y'\<bar> \<le> (a + b) * u * x * y"
  proof -
    have "x' * y - x * y' = (x' - x) * y - x * (y' - y)"
      by (simp add: algebra_simps)
    then have "\<bar>x' * y - x * y'\<bar> \<le> \<bar>x' - x\<bar> * y + x * \<bar>y' - y\<bar>"
      using assms(3,4) by (simp add: abs_mult) (metis abs_triangle_ineq4 abs_mult abs_of_nonneg less_imp_le)
    also have "\<dots> \<le> a * u * x * y + x * (b * u * y)"
      using dx dy assms(3,4) by (intro add_mono mult_right_mono mult_left_mono) simp_all
    also have "\<dots> = (a + b) * u * x * y"
      by (simp add: algebra_simps)
    finally show ?thesis .
  qed
  ultimately have "\<bar>x' / y' - x / y\<bar> \<le> (a + b) * u * x * y / (y' * y)"
  proof -
    assume e: "\<bar>x' / y' - x / y\<bar> = \<bar>x' * y - x * y'\<bar> / (y' * y)"
      and n: "\<bar>x' * y - x * y'\<bar> \<le> (a + b) * u * x * y"
    have "0 \<le> y' * y"
      using y'pos assms(4) by simp
    then have "\<bar>x' * y - x * y'\<bar> / (y' * y) \<le> (a + b) * u * x * y / (y' * y)"
      using n by (rule divide_right_mono [rotated])
    then show ?thesis
      by (simp only: e)
  qed
  also have "\<dots> = (a + b) * u * x / y'"
    using assms(4) by simp
  also have "\<dots> \<le> (a + b) * u * x / (y / 2)"
    using y' assms(3,4,5,6) u by (intro divide_left_mono mult_nonneg_nonneg) simp_all
  also have "\<dots> = 2 * (a + b) * u * (x / y)"
    by simp
  finally show ?thesis
    unfolding near_def u_def .
qed

lemma near_bound: "near c x' x \<Longrightarrow> 0 \<le> c \<Longrightarrow> 0 \<le> x \<Longrightarrow> x \<le> G \<Longrightarrow> \<bar>x' - x\<bar> \<le> c * (1 / 2 ^ 53) * G"
proof -
  assume a: "near c x' x" "0 \<le> c" "0 \<le> x" "x \<le> G"
  have "c * (1 / 2 ^ 53) * x \<le> c * (1 / 2 ^ 53) * G"
    using a(2,4) by (intro mult_left_mono) simp_all
  then show ?thesis
    using a(1) unfolding near_def by linarith
qed

section \<open>The averaging loop\<close>

lemma weightedAverage_none: "length ps < 2 \<Longrightarrow> weightedAverage tm ps = 28"
proof -
  assume "length ps < 2"
  then have e: "[1..<min (length ps) 6] = []" by simp
  show ?thesis
    unfolding weightedAverage_def e by simp
qed

lemma sorted_concat_elem:
  "sorted (map f (concat xss)) \<Longrightarrow> xs \<in> set xss \<Longrightarrow> sorted (map f xs)"
  by (induction xss) (auto simp: sorted_append)

lemma last_is_Min:
  fixes tm :: "string \<Rightarrow> int"
  assumes "p \<noteq> []" and "sorted (map (\<lambda>a. - tm a) p)"
  shows "tm (last p) = Min (tm ` set p)"
proof -
  have p: "p = butlast p @ [last p]"
    using assms(1) by simp
  have "sorted (map (\<lambda>a. - tm a) (butlast p) @ [- tm (last p)])"
    using assms(2) by (subst (asm) p) simp
  then have le: "\<forall>x\<in>set (butlast p). tm (last p) \<le> tm x"
    by (simp add: sorted_append)
  have "tm (last p) \<le> y" if y: "y \<in> tm ` set p" for y
  proof -
    obtain x where x: "x \<in> set p" "y = tm x"
      using y by blast
    then have "x \<in> set (butlast p) \<or> x = last p"
      by (subst (asm) p) auto
    then show ?thesis
      using le x by auto
  qed
  moreover have "tm (last p) \<in> tm ` set p"
    using assms(1) by simp
  ultimately show ?thesis
    by (intro Min_eqI [symmetric]) simp_all
qed

lemma period_start:
  assumes "dates \<noteq> []" and "k < length (groupPeriods tm (sortDates tm dates))"
  shows "tm (last (groupPeriods tm (sortDates tm dates) ! k))
           = spec_episodeStart tm (groupPeriods tm (sortDates tm dates) ! k)"
proof -
  let ?ps = "groupPeriods tm (sortDates tm dates)"
  have ne: "sortDates tm dates \<noteq> []"
    using assms(1) by (simp add: sortDates_Nil_iff)
  have mem: "?ps ! k \<in> set ?ps"
    using assms(2) by simp
  have "sorted (map (\<lambda>a. - tm a) (concat ?ps))"
    using sortDates_sorted [of tm dates] by (simp add: groupPeriods_concat [OF ne])
  then have "sorted (map (\<lambda>a. - tm a) (?ps ! k))"
    using mem by (rule sorted_concat_elem)
  moreover have "?ps ! k \<noteq> []"
    using groupPeriods_no_empty [OF ne, of tm] mem by metis
  ultimately show ?thesis
    unfolding spec_episodeStart_def by (rule last_is_Min [rotated])
qed

text \<open>
  The episodes are listed latest first, and the starts of two neighbours are more than 7
  days apart, so that every gap is at least 7 days.
\<close>

lemma episode_starts_apart:
  assumes "dates \<noteq> []" and "Suc k < length (groupPeriods tm (sortDates tm dates))"
  shows "7 * DAY < spec_episodeStart tm (groupPeriods tm (sortDates tm dates) ! k)
                    - spec_episodeStart tm (groupPeriods tm (sortDates tm dates) ! Suc k)"
    and "7 \<le> spec_gap tm (groupPeriods tm (sortDates tm dates)) k"
proof -
  let ?ps = "groupPeriods tm (sortDates tm dates)"
  have ne: "sortDates tm dates \<noteq> []"
    using assms(1) by (simp add: sortDates_Nil_iff)
  have k: "k < length ?ps"
    using assms(2) by simp
  have "successively (\<lambda>g h. 7 * DAY < tm (last g) - tm (hd h)) ?ps"
    using ne sortDates_sorted by (rule groupPeriods_separated)
  then have far: "7 * DAY < tm (last (?ps ! k)) - tm (hd (?ps ! Suc k))"
    using assms(2) by (rule successively_nth)
  have "?ps ! Suc k \<in> set ?ps"
    using assms(2) by simp
  then have "?ps ! Suc k \<noteq> []"
    using groupPeriods_no_empty [OF ne, of tm] by metis
  then have "hd (?ps ! Suc k) \<in> set (?ps ! Suc k)"
    by simp
  then have "spec_episodeStart tm (?ps ! Suc k) \<le> tm (hd (?ps ! Suc k))"
    unfolding spec_episodeStart_def by simp
  then show apart: "7 * DAY < spec_episodeStart tm (?ps ! k) - spec_episodeStart tm (?ps ! Suc k)"
    using far period_start [OF assms(1) k] by simp
  have "(7 * DAY) div DAY \<le> (spec_episodeStart tm (?ps ! k) - spec_episodeStart tm (?ps ! Suc k)) div DAY"
    using apart DAY_pos by (intro zdiv_mono1) simp_all
  then show "7 \<le> spec_gap tm ?ps k"
    using DAY_pos by (simp add: spec_gap_def)
qed

lemma groupPeriods_length_short: "length xs < 2 \<Longrightarrow> length (groupPeriods tm xs) = 1"
  by (simp add: groupPeriods_short)

lemma getAverageCycleLength_short: "length dates < 2 \<Longrightarrow> getAverageCycleLength tm dates = (28, dates)"
  by (simp add: getAverageCycleLength_def)

lemma getAverageCycleLength_long:
  "2 \<le> length dates \<Longrightarrow>
   getAverageCycleLength tm dates
     = (weightedAverage tm (groupPeriods tm (sortDates tm dates)), sortDates tm dates)"
  by (simp add: getAverageCycleLength_def Let_def)

text \<open>
  Claim C2. \<open>getAverageCycleLength\<close> returns 28 for every list of fewer than 2 dates, and
  for every list whose dates group into fewer than 2 episodes, so that there is no gap to
  average.
\<close>

theorem getAverageCycleLength_default:
  assumes "length dates < 2 \<or> length (groupPeriods tm (sortDates tm dates)) < 2"
  shows "fst (getAverageCycleLength tm dates) = 28"
proof (cases "length dates < 2")
  case True
  then show ?thesis by (simp add: getAverageCycleLength_short)
next
  case False
  then have "length (groupPeriods tm (sortDates tm dates)) < 2"
    using assms by blast
  then have "weightedAverage tm (groupPeriods tm (sortDates tm dates)) = 28"
    by (rule weightedAverage_none)
  then show ?thesis
    using False by (simp add: getAverageCycleLength_long)
qed

theorem getAverageCycleLength_default_witness:
  "length [''2024-01-01''] < 2 \<and> fst (getAverageCycleLength isoDateTime [''2024-01-01'']) = 28
   \<and> length (groupPeriods isoDateTime (sortDates isoDateTime
        [''2024-01-01'', ''2024-01-02'', ''2024-01-03'', ''2024-01-04'', ''2024-01-05''])) < 2
   \<and> fst (getAverageCycleLength isoDateTime
        [''2024-01-01'', ''2024-01-02'', ''2024-01-03'', ''2024-01-04'', ''2024-01-05'']) = 28"
proof -
  have g: "groupPeriods isoDateTime (sortDates isoDateTime
        [''2024-01-01'', ''2024-01-02'', ''2024-01-03'', ''2024-01-04'', ''2024-01-05''])
      = [[''2024-01-05'', ''2024-01-04'', ''2024-01-03'', ''2024-01-02'', ''2024-01-01'']]"
    by code_simp
  show ?thesis
    using getAverageCycleLength_default [where tm = isoDateTime and dates = "[''2024-01-01'']"]
      getAverageCycleLength_default [where tm = isoDateTime and dates =
        "[''2024-01-01'', ''2024-01-02'', ''2024-01-03'', ''2024-01-04'', ''2024-01-05'']"]
    unfolding g by simp
qed

section \<open>The weighted mean\<close>

text \<open>
  The averaging loop in doubles, against the weighted mean in exact arithmetic: after
  \<open>m\<close> gaps the two sums of the loop are the exact sums up to a relative error of a few
  \<open>2^-53\<close>, and so is the quotient. The exact mean is a fraction with a denominator of at
  most 25, so that it is at least \<open>1/50\<close> away from every point halfway between two
  integers that it does not hit.
\<close>

lemma cycleStep_eq:
  "cycleStep tm ps i (wt, ws, c)
     = (double (wt + double (of_int ((tm (last (ps ! (i - 1))) - tm (last (ps ! i))) div DAY)
                               * doubleWeight c)),
        double (ws + doubleWeight c), Suc c)"
  unfolding cycleStep_def Let_def floor_days doubleWeight_def by simp

lemma doubleWeight_near: "k < 5 \<Longrightarrow> near 4 (doubleWeight k) (spec_weight k)"
proof -
  assume "k < 5"
  then have "k = 0 \<or> k = 1 \<or> k = 2 \<or> k = 3 \<or> k = 4"
    by linarith
  moreover have "near 4 (doubleWeight 0) (spec_weight 0)" by code_simp
  moreover have "near 4 (doubleWeight 1) (spec_weight 1)" by code_simp
  moreover have "near 4 (doubleWeight 2) (spec_weight 2)" by code_simp
  moreover have "near 4 (doubleWeight 3) (spec_weight 3)" by code_simp
  moreover have "near 4 (doubleWeight 4) (spec_weight 4)" by code_simp
  ultimately show ?thesis
    by blast
qed

lemma spec_weight_pos: "0 < spec_weight k"
  by (simp add: spec_weight_def max_def)

lemma spec_weight_fifths: "k < 5 \<Longrightarrow> spec_weight k = of_int (5 - int k) / 5"
proof -
  assume "k < 5"
  then have "k = 0 \<or> k = 1 \<or> k = 2 \<or> k = 3 \<or> k = 4"
    by linarith
  then show ?thesis
    by (auto simp: spec_weight_def)
qed

lemma cycleStep_fold_near:
  fixes tm :: "string \<Rightarrow> int"
  assumes "m \<le> 5"
    and "\<And>k. k < m \<Longrightarrow> 0 \<le> (tm (last (ps ! k)) - tm (last (ps ! Suc k))) div DAY"
  shows "\<exists>wt ws. fold (cycleStep tm ps) [1..<Suc m] (0, 0, 0) = (wt, ws, m)
           \<and> near (6 + 2 * of_nat m) wt
               (\<Sum>k<m. of_int ((tm (last (ps ! k)) - tm (last (ps ! Suc k))) div DAY) * spec_weight k)
           \<and> near (4 + 2 * of_nat m) ws (\<Sum>k<m. spec_weight k)"
  using assms
proof (induction m)
  case 0
  then show ?case by (simp add: near_def)
next
  case (Suc m)
  let ?g = "\<lambda>k. (tm (last (ps ! k)) - tm (last (ps ! Suc k))) div DAY"
  let ?T = "\<lambda>m. \<Sum>k<m. of_int (?g k) * spec_weight k"
  let ?S = "\<lambda>m. \<Sum>k<m. spec_weight k"
  have m: "m < 5" "m \<le> 5"
    using Suc.prems(1) by simp_all
  have g: "0 \<le> ?g k" if "k < Suc m" for k
    using Suc.prems(2) that by blast
  have "\<exists>wt ws. fold (cycleStep tm ps) [1..<Suc m] (0, 0, 0) = (wt, ws, m)
           \<and> near (6 + 2 * of_nat m) wt (?T m) \<and> near (4 + 2 * of_nat m) ws (?S m)"
    by (rule Suc.IH [OF m(2)]) (rule g, simp)
  then obtain wt ws where st: "fold (cycleStep tm ps) [1..<Suc m] (0, 0, 0) = (wt, ws, m)"
    and wt: "near (6 + 2 * of_nat m) wt (?T m)" and ws: "near (4 + 2 * of_nat m) ws (?S m)"
    by blast
  have e6: "(6::rat) + 2 * of_nat (Suc m) = 6 + 2 * of_nat m + 2"
    and e4: "(4::rat) + 2 * of_nat (Suc m) = 4 + 2 * of_nat m + 2"
    by simp_all
  have eT: "?T (Suc m) = ?T m + of_int (?g m) * spec_weight m"
    and eS: "?S (Suc m) = ?S m + spec_weight m"
    by simp_all
  have T0: "0 \<le> ?T m"
    using g spec_weight_pos by (intro sum_nonneg mult_nonneg_nonneg) (simp_all add: less_imp_le)
  have S0: "0 \<le> ?S m"
    using spec_weight_pos by (intro sum_nonneg) (simp add: less_imp_le)
  have gw0: "0 \<le> of_int (?g m) * spec_weight m"
    using g [of m] spec_weight_pos [of m] by simp
  have w: "near 4 (doubleWeight m) (spec_weight m)"
    using m(1) by (rule doubleWeight_near)
  have c: "(0::rat) \<le> 6 + 2 * of_nat m" "(6::rat) + 2 * of_nat m \<le> 2 ^ 53"
    "(0::rat) \<le> 4 + 2 * of_nat m" "(4::rat) + 2 * of_nat m \<le> 2 ^ 53"
    using m(1) by simp_all
  have "near 4 (of_int (?g m) * doubleWeight m) (of_int (?g m) * spec_weight m)"
    using w g [of m] by (intro near_scale) simp_all
  then have "near (4 + 2) (double (of_int (?g m) * doubleWeight m)) (of_int (?g m) * spec_weight m)"
    using gw0 by (intro near_double) simp_all
  then have "near (6 + 2 * of_nat m) (double (of_int (?g m) * doubleWeight m))
               (of_int (?g m) * spec_weight m)"
    by (rule near_mono) (use gw0 in simp_all)
  then have "near (6 + 2 * of_nat m) (wt + double (of_int (?g m) * doubleWeight m))
               (?T m + of_int (?g m) * spec_weight m)"
    using wt by (intro near_add)
  then have "near (6 + 2 * of_nat m + 2)
               (double (wt + double (of_int (?g m) * doubleWeight m)))
               (?T m + of_int (?g m) * spec_weight m)"
    using T0 gw0 c by (intro near_double) simp_all
  then have wt': "near (6 + 2 * of_nat (Suc m))
               (double (wt + double (of_int (?g m) * doubleWeight m))) (?T (Suc m))"
    unfolding e6 eT .
  have "near (4 + 2 * of_nat m) (doubleWeight m) (spec_weight m)"
    using w by (rule near_mono) (use spec_weight_pos [of m] in simp_all)
  then have "near (4 + 2 * of_nat m) (ws + doubleWeight m) (?S m + spec_weight m)"
    using ws by (intro near_add)
  then have "near (4 + 2 * of_nat m + 2) (double (ws + doubleWeight m)) (?S m + spec_weight m)"
    using S0 spec_weight_pos [of m] c by (intro near_double) simp_all
  then have ws': "near (4 + 2 * of_nat (Suc m)) (double (ws + doubleWeight m)) (?S (Suc m))"
    unfolding e4 eS .
  have "fold (cycleStep tm ps) [1..<Suc (Suc m)] (0, 0, 0)
          = cycleStep tm ps (Suc m) (fold (cycleStep tm ps) [1..<Suc m] (0, 0, 0))"
    by (rule fold_upt_Suc) simp
  also have "\<dots> = (double (wt + double (of_int (?g m) * doubleWeight m)),
                    double (ws + doubleWeight m), Suc m)"
    unfolding st cycleStep_eq by simp
  finally show ?case
    using wt' ws' by blast
qed

lemma weightedAverage_double:
  fixes tm :: "string \<Rightarrow> int"
  assumes "2 \<le> length ps"
    and g: "\<And>k. k < min (length ps - 1) 5 \<Longrightarrow>
              0 \<le> (tm (last (ps ! k)) - tm (last (ps ! Suc k))) div DAY
              \<and> (tm (last (ps ! k)) - tm (last (ps ! Suc k))) div DAY \<le> G"
  shows "\<exists>q. weightedAverage tm ps = \<lfloor>q + 1 / 2\<rfloor>
           \<and> \<bar>q - (\<Sum>k<min (length ps - 1) 5.
                      of_int ((tm (last (ps ! k)) - tm (last (ps ! Suc k))) div DAY) * spec_weight k)
                    / (\<Sum>k<min (length ps - 1) 5. spec_weight k)\<bar>
               \<le> 62 * (1 / 2 ^ 53) * of_int G"
proof -
  let ?n = "min (length ps - 1) 5"
  let ?g = "\<lambda>k. (tm (last (ps ! k)) - tm (last (ps ! Suc k))) div DAY"
  let ?T = "\<Sum>k<?n. of_int (?g k) * spec_weight k"
  let ?S = "\<Sum>k<?n. spec_weight k"
  have n: "min (length ps) 6 = Suc ?n" "0 < ?n" "?n \<le> 5"
    using assms(1) by simp_all
  obtain wt ws where st: "fold (cycleStep tm ps) [1..<Suc ?n] (0, 0, 0) = (wt, ws, ?n)"
    and wt: "near (6 + 2 * of_nat ?n) wt ?T" and ws: "near (4 + 2 * of_nat ?n) ws ?S"
    using cycleStep_fold_near [OF n(3), of tm ps] g by blast
  have r: "weightedAverage tm ps = \<lfloor>double (wt / ws) + 1 / 2\<rfloor>"
    unfolding weightedAverage_def n(1) st using n(2) by (simp add: Math_round_def)
  have T0: "0 \<le> ?T"
    using g spec_weight_pos by (intro sum_nonneg mult_nonneg_nonneg) (simp_all add: less_imp_le)
  have S0: "0 < ?S"
    using n(2) spec_weight_pos by (intro sum_pos) (simp_all add: lessThan_empty_iff)
  have G0: "0 \<le> G"
    using g [of 0] n(2) by linarith
  have "?T \<le> (\<Sum>k<?n. of_int G * spec_weight k)"
    using g spec_weight_pos by (intro sum_mono mult_right_mono) (simp_all add: less_imp_le)
  also have "\<dots> = of_int G * ?S"
    by (simp add: sum_distrib_left)
  finally have TG: "?T / ?S \<le> of_int G"
    using S0 by (simp add: pos_divide_le_eq)
  have TS0: "0 \<le> ?T / ?S"
    using T0 S0 by simp
  have "(6::rat) + 2 * of_nat ?n \<le> 16" "(4::rat) + 2 * of_nat ?n \<le> 14"
    using n(3) by simp_all
  then have "near 16 wt ?T" "near 14 ws ?S"
    using wt ws T0 S0 by (auto intro: near_mono)
  then have "near (2 * (16 + 14)) (wt / ws) (?T / ?S)"
    using T0 S0 by (intro near_divide) simp_all
  then have "near (2 * (16 + 14) + 2) (double (wt / ws)) (?T / ?S)"
    using TS0 by (intro near_double) simp_all
  then have "\<bar>double (wt / ws) - ?T / ?S\<bar> \<le> (2 * (16 + 14) + 2) * (1 / 2 ^ 53) * of_int G"
    using TS0 TG by (intro near_bound) simp_all
  then show ?thesis
    using r by auto
qed

lemma fraction_above:
  assumes "0 < E" and "(of_int a :: rat) < of_int K / of_int E"
  shows "(of_int a :: rat) + 1 / of_int E \<le> of_int K / of_int E"
proof -
  have "(of_int (a * E) :: rat) < of_int K"
    using assms by (simp add: pos_less_divide_eq)
  then have "a * E < K"
    by (simp only: of_int_less_iff)
  then have "a * E + 1 \<le> K"
    by simp
  then have "(of_int (a * E + 1) :: rat) \<le> of_int K"
    by (simp only: of_int_le_iff)
  then have "(of_int (a * E + 1) :: rat) / of_int E \<le> of_int K / of_int E"
    using assms(1) by (intro divide_right_mono) simp_all
  moreover have "(of_int (a * E + 1) :: rat) / of_int E = of_int a + 1 / of_int E"
    using assms(1) by (simp add: add_divide_distrib)
  ultimately show ?thesis
    by simp
qed

lemma fraction_below:
  assumes "0 < E" and "of_int K / of_int E < (of_int a :: rat)"
  shows "of_int K / of_int E + 1 / of_int E \<le> (of_int a :: rat)"
proof -
  have "(of_int K :: rat) < of_int (a * E)"
    using assms by (simp add: pos_divide_less_eq)
  then have "K < a * E"
    by (simp only: of_int_less_iff)
  then have "K + 1 \<le> a * E"
    by simp
  then have "(of_int (K + 1) :: rat) \<le> of_int (a * E)"
    by (simp only: of_int_le_iff)
  then have "(of_int (K + 1) :: rat) / of_int E \<le> of_int (a * E) / of_int E"
    using assms(1) by (intro divide_right_mono) simp_all
  moreover have "(of_int (K + 1) :: rat) / of_int E = of_int K / of_int E + 1 / of_int E"
    by (simp add: add_divide_distrib)
  moreover have "(of_int (a * E) :: rat) / of_int E = of_int a"
    using assms(1) by simp
  ultimately show ?thesis
    by simp
qed

lemma halfway_iff: "halfway x \<longleftrightarrow> x + 1 / 2 = of_int (round x)"
proof
  assume "halfway x"
  then have x: "x = of_int \<lfloor>x\<rfloor> + 1 / 2"
    unfolding halfway_def by (simp add: field_simps)
  have "round x = \<lfloor>of_int (\<lfloor>x\<rfloor> + 1) :: rat\<rfloor>"
    unfolding round_def by (subst x) (simp add: algebra_simps)
  then have "round x = \<lfloor>x\<rfloor> + 1"
    by (simp only: floor_of_int)
  then show "x + 1 / 2 = of_int (round x)"
    using x by simp
next
  assume a: "x + 1 / 2 = of_int (round x)"
  then have "x = of_int (round x - 1) + 1 / 2"
    by simp
  then have "\<lfloor>x\<rfloor> = round x - 1"
    by (intro floor_unique) linarith+
  then show "halfway x"
    using a unfolding halfway_def by (simp add: field_simps)
qed

lemma round_stable:
  fixes N D :: int and q x :: rat
  assumes x: "x = of_int N / of_int D" and D: "0 < D" "D \<le> 25" and q: "\<bar>q - x\<bar> < 1 / 50"
  shows "\<not> halfway x \<Longrightarrow> \<lfloor>q + 1 / 2\<rfloor> = round x"
    and "\<bar>of_int \<lfloor>q + 1 / 2\<rfloor> - x\<bar> \<le> 1 / 2"
proof -
  define m where "m = round x"
  have y: "x + 1 / 2 = of_int (2 * N + D) / of_int (2 * D)"
    using D(1) unfolding x by (simp add: field_simps)
  have E: "0 < 2 * D" "(1::rat) / 50 \<le> 1 / of_int (2 * D)"
    using D by (simp_all add: field_simps)
  have lo: "of_int m \<le> x + 1 / 2" and hi: "x + 1 / 2 < of_int m + 1"
    unfolding m_def round_def by linarith+
  have stable: "\<lfloor>q + 1 / 2\<rfloor> = m" if nh: "\<not> halfway x"
  proof -
    have "of_int m \<noteq> x + 1 / 2"
      using nh unfolding halfway_iff m_def by simp
    then have "of_int m < x + 1 / 2"
      using lo by simp
    then have "of_int m + 1 / of_int (2 * D) \<le> x + 1 / 2"
      unfolding y using E(1) by (intro fraction_above)
    then have a: "of_int m + 1 / 50 \<le> x + 1 / 2"
      using E(2) by linarith
    have "x + 1 / 2 < of_int (m + 1)"
      using hi by simp
    then have "x + 1 / 2 + 1 / of_int (2 * D) \<le> of_int (m + 1)"
      unfolding y using E(1) by (intro fraction_below)
    then have b: "x + 1 / 2 + 1 / 50 \<le> of_int m + 1"
      using E(2) by simp
    show ?thesis
      using a b q by (intro floor_unique) linarith+
  qed
  then show "\<not> halfway x \<Longrightarrow> \<lfloor>q + 1 / 2\<rfloor> = round x"
    by (simp add: m_def)
  show "\<bar>of_int \<lfloor>q + 1 / 2\<rfloor> - x\<bar> \<le> 1 / 2"
  proof (cases "halfway x")
    case False
    then show ?thesis
      using stable of_int_round_abs_le [of x] by (simp add: m_def)
  next
    case True
    then have xm: "x + 1 / 2 = of_int m"
      unfolding halfway_iff m_def .
    have "(of_int (m - 1) :: rat) = of_int m - 1" "(of_int (m + 1) :: rat) = of_int m + 1"
      by simp_all
    then have "(of_int (m - 1) :: rat) \<le> q + 1 / 2" "q + 1 / 2 < of_int (m + 1)"
      using xm q by linarith+
    then have "m - 1 \<le> \<lfloor>q + 1 / 2\<rfloor>" "\<lfloor>q + 1 / 2\<rfloor> < m + 1"
      by (simp_all only: le_floor_iff floor_less_iff)
    then have "\<lfloor>q + 1 / 2\<rfloor> = m - 1 \<or> \<lfloor>q + 1 / 2\<rfloor> = m"
      by linarith
    then show ?thesis
      using xm by auto
  qed
qed

lemma mean_fraction:
  fixes g :: "nat \<Rightarrow> int"
  assumes "0 < n" and "n \<le> 5"
  shows "\<exists>N D. (\<Sum>k<n. of_int (g k) * spec_weight k) / (\<Sum>k<n. spec_weight k)
                  = of_int N / of_int D \<and> 0 < D \<and> D \<le> 25"
proof -
  define N where "N = (\<Sum>k<n. g k * (5 - int k))"
  define D where "D = (\<Sum>k<n. 5 - int k)"
  have w: "spec_weight k = of_int (5 - int k) / 5" if "k \<in> {..<n}" for k
    using that assms(2) by (intro spec_weight_fifths) simp
  have "(\<Sum>k<n. of_int (g k) * spec_weight k) = (\<Sum>k<n. of_int (g k * (5 - int k)) / 5)"
    by (intro sum.cong) (simp_all add: w)
  also have "\<dots> = of_int N / 5"
    by (simp add: N_def sum_divide_distrib)
  finally have T: "(\<Sum>k<n. of_int (g k) * spec_weight k) = of_int N / 5" .
  have "(\<Sum>k<n. spec_weight k) = (\<Sum>k<n. of_int (5 - int k) / 5)"
    by (intro sum.cong) (simp_all add: w)
  also have "\<dots> = of_int D / 5"
    by (simp add: D_def sum_divide_distrib)
  finally have S: "(\<Sum>k<n. spec_weight k) = of_int D / 5" .
  have "of_nat (card {..<n}) * 1 \<le> D"
    unfolding D_def using assms(2) by (intro sum_bounded_below) auto
  then have D0: "0 < D"
    using assms(1) by simp
  have "D \<le> of_nat (card {..<n}) * 5"
    unfolding D_def by (intro sum_bounded_above) auto
  then have D25: "D \<le> 25"
    using assms(2) by simp
  show ?thesis
    using D0 D25 unfolding T S by (intro exI [of _ N] exI [of _ D]) simp
qed

lemma period_last_in_dates:
  assumes "dates \<noteq> []" and "k < length (groupPeriods tm (sortDates tm dates))"
  shows "last (groupPeriods tm (sortDates tm dates) ! k) \<in> set dates"
proof -
  let ?ps = "groupPeriods tm (sortDates tm dates)"
  have ne: "sortDates tm dates \<noteq> []"
    using assms(1) by (simp add: sortDates_Nil_iff)
  have mem: "?ps ! k \<in> set ?ps"
    using assms(2) by simp
  then have "?ps ! k \<noteq> []"
    using groupPeriods_no_empty [OF ne, of tm] by metis
  then have "last (?ps ! k) \<in> set (?ps ! k)"
    by simp
  then have "last (?ps ! k) \<in> set (concat ?ps)"
    using mem by auto
  then have "last (?ps ! k) \<in> set (sortDates tm dates)"
    by (simp only: groupPeriods_concat [OF ne])
  then show ?thesis
    by (simp add: sortDates_def)
qed

lemma gap_bounds:
  fixes tm :: "string \<Rightarrow> int"
  assumes "dates \<noteq> []" and "Suc k < length (groupPeriods tm (sortDates tm dates))"
    and "\<forall>d\<in>set dates. \<bar>tm d\<bar> \<le> 2 ^ 52"
  shows "(tm (last (groupPeriods tm (sortDates tm dates) ! k))
            - tm (last (groupPeriods tm (sortDates tm dates) ! Suc k))) div DAY
           = spec_gap tm (groupPeriods tm (sortDates tm dates)) k"
    and "0 \<le> spec_gap tm (groupPeriods tm (sortDates tm dates)) k"
    and "spec_gap tm (groupPeriods tm (sortDates tm dates)) k \<le> 2 ^ 27"
proof -
  let ?ps = "groupPeriods tm (sortDates tm dates)"
  have k: "k < length ?ps"
    using assms(2) by simp
  show eq: "(tm (last (?ps ! k)) - tm (last (?ps ! Suc k))) div DAY = spec_gap tm ?ps k"
    unfolding spec_gap_def by (simp only: period_start [OF assms(1) k] period_start [OF assms(1,2)])
  show "0 \<le> spec_gap tm ?ps k"
    using episode_starts_apart(2) [OF assms(1,2)] by simp
  have "\<bar>tm (last (?ps ! k))\<bar> \<le> 2 ^ 52" "\<bar>tm (last (?ps ! Suc k))\<bar> \<le> 2 ^ 52"
    using assms(3) period_last_in_dates [OF assms(1) k] period_last_in_dates [OF assms(1,2)]
    by blast+
  then have "tm (last (?ps ! k)) - tm (last (?ps ! Suc k)) \<le> 2 ^ 53"
    by simp
  then have "(tm (last (?ps ! k)) - tm (last (?ps ! Suc k))) div DAY \<le> 2 ^ 53 div DAY"
    using DAY_pos by (intro zdiv_mono1)
  also have "\<dots> \<le> 2 ^ 27"
    by (simp add: DAY_def)
  finally show "spec_gap tm ?ps k \<le> 2 ^ 27"
    unfolding eq .
qed

lemma spec_mean_take:
  "spec_mean tm (take 6 episodes) = spec_mean tm episodes"
proof -
  have n: "min (length (take 6 episodes) - 1) 5 = min (length episodes - 1) 5"
    by auto
  have "spec_gap tm (take 6 episodes) k = spec_gap tm episodes k" if "k < 5" for k
    using that by (simp add: spec_gap_def)
  then have "(\<Sum>k<min (length episodes - 1) 5. of_int (spec_gap tm (take 6 episodes) k) * spec_weight k)
           = (\<Sum>k<min (length episodes - 1) 5. of_int (spec_gap tm episodes k) * spec_weight k)"
    by (intro sum.cong) simp_all
  then show ?thesis
    unfolding spec_mean_def n Let_def by (simp only:)
qed

lemma spec_weight_table:
  "spec_weight 0 = 1" "spec_weight 1 = 8 / 10" "spec_weight 2 = 6 / 10" "spec_weight 3 = 4 / 10"
  "4 \<le> k \<Longrightarrow> spec_weight k = 2 / 10"
  by (simp_all add: spec_weight_def max_def field_simps)

lemma upt_1_4: "[1..<4] = [1, 2, 3::nat]"
  by code_simp

text \<open>
  Claim C1, as stated: for every date list that groups into at least 2 episodes,
  \<open>getAverageCycleLength\<close> returns the weighted mean of the gaps, rounded. It fails where
  the mean is exactly halfway between two integers. The dates 2024-04-03, 2024-04-29,
  2024-05-25 and 2024-06-26 make four episodes with the gaps 32, 26 and 26, latest first;
  the weighted mean is \<open>(32 + 26 * 0.8 + 26 * 0.6) / 2.4 = 28.5\<close>, which rounds to 29, and the
  code returns 28: its sum of doubles is a little below 68.4 and its quotient a little
  below 28.5.
\<close>

theorem getAverageCycleLength_tie_rounds_down:
  "2 \<le> length (spec_episodes isoDateTime [''2024-04-03'', ''2024-04-29'', ''2024-05-25'', ''2024-06-26''])
   \<and> fst (getAverageCycleLength isoDateTime
          [''2024-04-03'', ''2024-04-29'', ''2024-05-25'', ''2024-06-26'']) = 28
   \<and> spec_estimateCycleLength isoDateTime
          (spec_episodes isoDateTime [''2024-04-03'', ''2024-04-29'', ''2024-05-25'', ''2024-06-26'']) = 29"
proof -
  let ?ps = "[[''2024-06-26''], [''2024-05-25''], [''2024-04-29''], [''2024-04-03'']]"
  have e: "spec_episodes isoDateTime [''2024-04-03'', ''2024-04-29'', ''2024-05-25'', ''2024-06-26''] = ?ps"
    by code_simp
  have s: "sortDates isoDateTime [''2024-04-03'', ''2024-04-29'', ''2024-05-25'', ''2024-06-26'']
      = [''2024-06-26'', ''2024-05-25'', ''2024-04-29'', ''2024-04-03'']"
    by code_simp
  have g: "groupPeriods isoDateTime [''2024-06-26'', ''2024-05-25'', ''2024-04-29'', ''2024-04-03''] = ?ps"
    by code_simp
  have n: "min (length ?ps) 6 = 4"
    by simp
  have w0: "doubleWeight (0) = 1"
    by code_simp
  have g0: "(isoDateTime (last (?ps ! (1 - 1))) - isoDateTime (last (?ps ! 1))) div DAY = 32"
    by code_simp
  have p0: "of_int 32 * (1::rat) = 32"
    by simp
  have dp0: "double 32 = 32"
    by code_simp
  have a0: "(0::rat) + 32 = 32"
    by simp
  have da0: "double 32 = 32"
    by code_simp
  have b0: "(0::rat) + 1 = 1"
    by simp
  have db0: "double 1 = 1"
    by code_simp
  have f0: "cycleStep isoDateTime ?ps 1 (0, 0, 0) = (32, 1, Suc 0)"
    by (simp only: cycleStep_eq g0 w0 p0 dp0 a0 da0 b0 db0)
  have w1: "doubleWeight (Suc 0) = 3602879701896397 / 4503599627370496"
    by code_simp
  have g1: "(isoDateTime (last (?ps ! (2 - 1))) - isoDateTime (last (?ps ! 2))) div DAY = 26"
    by code_simp
  have p1: "of_int 26 * (3602879701896397 / 4503599627370496 :: rat) = 46837436124653161 / 2251799813685248"
    by simp
  have dp1: "double (46837436124653161 / 2251799813685248) = 5854679515581645 / 281474976710656"
    by code_simp
  have a1: "(32::rat) + (5854679515581645 / 281474976710656) = 14861878770322637 / 281474976710656"
    by simp
  have da1: "double (14861878770322637 / 281474976710656) = 3715469692580659 / 70368744177664"
    by code_simp
  have b1: "(1::rat) + (3602879701896397 / 4503599627370496) = 8106479329266893 / 4503599627370496"
    by simp
  have db1: "double (8106479329266893 / 4503599627370496) = 8106479329266893 / 4503599627370496"
    by code_simp
  have f1: "cycleStep isoDateTime ?ps 2 (32, 1, Suc 0) = (3715469692580659 / 70368744177664, 8106479329266893 / 4503599627370496, Suc (Suc 0))"
    by (simp only: cycleStep_eq g1 w1 p1 dp1 a1 da1 b1 db1)
  have w2: "doubleWeight (Suc (Suc 0)) = 5404319552844595 / 9007199254740992"
    by code_simp
  have g2: "(isoDateTime (last (?ps ! (3 - 1))) - isoDateTime (last (?ps ! 3))) div DAY = 26"
    by code_simp
  have p2: "of_int 26 * (5404319552844595 / 9007199254740992 :: rat) = 70256154186979735 / 4503599627370496"
    by simp
  have dp2: "double (70256154186979735 / 4503599627370496) = 8782019273372467 / 562949953421312"
    by code_simp
  have a2: "(3715469692580659 / 70368744177664 :: rat) + (8782019273372467 / 562949953421312) = 38505776814017739 / 562949953421312"
    by simp
  have da2: "double (38505776814017739 / 562949953421312) = 4813222101752217 / 70368744177664"
    by code_simp
  have b2: "(8106479329266893 / 4503599627370496 :: rat) + (5404319552844595 / 9007199254740992) = 21617278211378381 / 9007199254740992"
    by simp
  have db2: "double (21617278211378381 / 9007199254740992) = 5404319552844595 / 2251799813685248"
    by code_simp
  have f2: "cycleStep isoDateTime ?ps 3 (3715469692580659 / 70368744177664, 8106479329266893 / 4503599627370496, Suc (Suc 0)) = (4813222101752217 / 70368744177664, 5404319552844595 / 2251799813685248, Suc (Suc (Suc 0)))"
    by (simp only: cycleStep_eq g2 w2 p2 dp2 a2 da2 b2 db2)
  have q: "(4813222101752217 / 70368744177664 :: rat) / (5404319552844595 / 2251799813685248) = 154023107256070944 / 5404319552844595"
    by simp
  have dq: "double (154023107256070944 / 5404319552844595) = 8022036836253695 / 281474976710656"
    by code_simp
  have mr: "Math_round (8022036836253695 / 281474976710656) = 28"
    by code_simp
  have w: "weightedAverage isoDateTime ?ps = 28"
    unfolding weightedAverage_def n upt_1_4 fold_Cons fold_Nil o_apply id_apply f0 f1 f2 Let_def prod.case
    by (simp only: zero_less_Suc if_True q dq mr)
  have a: "fst (getAverageCycleLength isoDateTime
          [''2024-04-03'', ''2024-04-29'', ''2024-05-25'', ''2024-06-26'']) = 28"
    unfolding getAverageCycleLength_def Let_def s g w by simp
  have m: "spec_estimateCycleLength isoDateTime ?ps = 29"
    by code_simp
  show ?thesis
    unfolding e a m by simp
qed

text \<open>
  Claim C1, amended. For every date list that groups into at least 2 episodes, with time
  values of at most \<open>2^52\<close> milliseconds in absolute value, \<open>getAverageCycleLength\<close> returns an
  integer nearest to the weighted mean of the gaps between the starts of consecutive
  episodes, latest first: it is at most \<open>1/2\<close> away from the mean, and it is the mean
  rounded whenever the mean is not exactly halfway between two integers. Gap \<open>k\<close> is the
  difference in days between the start of episode \<open>k\<close> and the start of the next older one,
  it has the weight \<open>max(1 - k*0.2, 0.2)\<close> (1, 0.8, 0.6, 0.4, 0.2 for the five gaps), and only
  the first 5 gaps, those of the 6 latest episodes, are used, however many episodes there
  are.
\<close>

theorem getAverageCycleLength_weighted_mean:
  fixes tm :: "string \<Rightarrow> int"
  assumes "2 \<le> length (spec_episodes tm dates)" and "\<forall>d\<in>set dates. \<bar>tm d\<bar> \<le> 2 ^ 52"
  shows "(\<not> halfway (spec_mean tm (spec_episodes tm dates)) \<longrightarrow>
            fst (getAverageCycleLength tm dates)
              = spec_estimateCycleLength tm (spec_episodes tm dates))
       \<and> \<bar>of_int (fst (getAverageCycleLength tm dates)) - spec_mean tm (spec_episodes tm dates)\<bar>
            \<le> 1 / 2
       \<and> spec_mean tm (take 6 (spec_episodes tm dates)) = spec_mean tm (spec_episodes tm dates)
       \<and> spec_weight 0 = 1 \<and> spec_weight 1 = 8 / 10 \<and> spec_weight 2 = 6 / 10
       \<and> spec_weight 3 = 4 / 10 \<and> spec_weight 4 = 2 / 10"
proof -
  have ne: "dates \<noteq> []"
    using assms(1) by (auto simp: spec_episodes_def)
  let ?ps = "groupPeriods tm (sortDates tm dates)"
  let ?n = "min (length ?ps - 1) 5"
  let ?g = "\<lambda>k. (tm (last (?ps ! k)) - tm (last (?ps ! Suc k))) div DAY"
  have eps: "spec_episodes tm dates = ?ps"
    using ne by (rule spec_episodes_groupPeriods)
  have ps2: "2 \<le> length ?ps"
    using assms(1) unfolding eps .
  have len: "2 \<le> length dates"
  proof (rule ccontr)
    assume "\<not> 2 \<le> length dates"
    then have "length (sortDates tm dates) < 2"
      by (simp add: sortDates_def)
    then have "length ?ps = 1"
      by (rule groupPeriods_length_short)
    then show False
      using ps2 by simp
  qed
  have n: "0 < ?n" "?n \<le> 5"
    using ps2 by simp_all
  have gap: "?g k = spec_gap tm ?ps k" "0 \<le> ?g k" "?g k \<le> 2 ^ 27" if "k < ?n" for k
  proof -
    have "Suc k < length ?ps"
      using that by linarith
    then show "?g k = spec_gap tm ?ps k" "0 \<le> ?g k" "?g k \<le> 2 ^ 27"
      using gap_bounds [OF ne _ assms(2), of k] by simp_all
  qed
  have mean: "(\<Sum>k<?n. of_int (?g k) * spec_weight k) / (\<Sum>k<?n. spec_weight k) = spec_mean tm ?ps"
  proof -
    have "(\<Sum>k<?n. of_int (?g k) * spec_weight k) = (\<Sum>k<?n. of_int (spec_gap tm ?ps k) * spec_weight k)"
      by (rule sum.cong) (simp_all add: gap(1))
    then show ?thesis
      unfolding spec_mean_def Let_def by (simp only:)
  qed
  obtain q where r: "weightedAverage tm ?ps = \<lfloor>q + 1 / 2\<rfloor>"
    and q: "\<bar>q - spec_mean tm ?ps\<bar> \<le> 62 * (1 / 2 ^ 53) * of_int (2 ^ 27)"
    using weightedAverage_double [OF ps2, of tm "2 ^ 27"] gap(2,3) unfolding mean by blast
  have q': "\<bar>q - spec_mean tm ?ps\<bar> < 1 / 50"
    using q by simp
  obtain N D where f: "spec_mean tm ?ps = of_int N / of_int D" "0 < D" "D \<le> 25"
    using mean_fraction [OF n, of ?g] unfolding mean by blast
  have res: "fst (getAverageCycleLength tm dates) = \<lfloor>q + 1 / 2\<rfloor>"
    using len r by (simp add: getAverageCycleLength_long)
  have "\<not> halfway (spec_mean tm ?ps) \<longrightarrow> \<lfloor>q + 1 / 2\<rfloor> = round (spec_mean tm ?ps)"
    using round_stable(1) [OF f q'] by blast
  moreover have "\<bar>of_int \<lfloor>q + 1 / 2\<rfloor> - spec_mean tm ?ps\<bar> \<le> 1 / 2"
    using f q' by (rule round_stable(2))
  ultimately show ?thesis
    unfolding eps res spec_estimateCycleLength_def
    by (simp only: spec_mean_take spec_weight_table simp_thms order_refl)
qed

theorem getAverageCycleLength_weighted_mean_witness:
  "2 \<le> length (spec_episodes isoDateTime [''2024-01-01'', ''2024-01-29'', ''2024-01-02'', ''2024-02-28''])
   \<and> \<bar>isoDateTime ''2024-01-01''\<bar> \<le> 2 ^ 52 \<and> \<bar>isoDateTime ''2024-01-29''\<bar> \<le> 2 ^ 52
   \<and> \<bar>isoDateTime ''2024-01-02''\<bar> \<le> 2 ^ 52 \<and> \<bar>isoDateTime ''2024-02-28''\<bar> \<le> 2 ^ 52
   \<and> spec_mean isoDateTime
        (spec_episodes isoDateTime [''2024-01-01'', ''2024-01-29'', ''2024-01-02'', ''2024-02-28'']) = 262 / 9
   \<and> \<not> halfway (262 / 9)
   \<and> fst (getAverageCycleLength isoDateTime [''2024-01-01'', ''2024-01-29'', ''2024-01-02'', ''2024-02-28'']) = 29"
proof -
  let ?ds = "[''2024-01-01'', ''2024-01-29'', ''2024-01-02'', ''2024-02-28'']"
  let ?ps = "[[''2024-02-28''], [''2024-01-29''], [''2024-01-02'', ''2024-01-01'']]"
  have e: "spec_episodes isoDateTime ?ds = ?ps"
    by code_simp
  have l: "2 \<le> length ?ps"
    by simp
  have b: "\<bar>isoDateTime ''2024-01-01''\<bar> \<le> 2 ^ 52" "\<bar>isoDateTime ''2024-01-29''\<bar> \<le> 2 ^ 52"
    "\<bar>isoDateTime ''2024-01-02''\<bar> \<le> 2 ^ 52" "\<bar>isoDateTime ''2024-02-28''\<bar> \<le> 2 ^ 52"
    by code_simp+
  then have b': "\<forall>d\<in>set ?ds. \<bar>isoDateTime d\<bar> \<le> 2 ^ 52"
    by simp
  have m: "spec_mean isoDateTime ?ps = 262 / 9"
    by code_simp
  have h: "\<not> halfway (262 / 9)"
    by code_simp
  have r: "round (262 / 9 :: rat) = 29"
    by code_simp
  have "fst (getAverageCycleLength isoDateTime ?ds) = 29"
    using getAverageCycleLength_weighted_mean [where tm = isoDateTime and dates = ?ds] l b' h
    unfolding e m spec_estimateCycleLength_def r by simp
  then show ?thesis
    using l b h unfolding e m by simp
qed

section \<open>The forecast\<close>

text \<open>
  The fields of the forecast: the cycle length is the estimate for the date list, the
  forecast is the start moved by that many calendar days with \<^verbatim>\<open>setDate\<close>, the date is the
  local calendar day of the forecast, and \<open>days\<close> is the ceiling of the time from \<open>now\<close> to
  the forecast, in days. For a date-only start, in a zone at a fixed offset from UTC up to
  24 hours east, the date is the start plus the cycle length; west of UTC it is one day
  earlier. Across a daylight-saving change the forecast keeps the local time of day, so
  that it is not a whole number of days after the start.
\<close>

lemma getPrediction_fields:
  "fst (getPrediction tm z now startDate allDates)
     = \<lparr>p_days = \<lceil>(of_int (setDate_plus z (tm startDate) (fst (getAverageCycleLength tm allDates)) - now) :: rat)
                      / of_int DAY\<rceil>,
        p_date = toLocaleDateString z (setDate_plus z (tm startDate) (fst (getAverageCycleLength tm allDates))),
        p_cycleLength = fst (getAverageCycleLength tm allDates)\<rparr>"
  by (simp add: getPrediction_def Let_def split_beta)

lemma getPrediction_date_fixedZone:
  "0 \<le> tz \<Longrightarrow> tz < DAY \<Longrightarrow>
   p_date (fst (getPrediction isoDateTime (fixedZone tz) now startDate allDates))
     = isoDateTime startDate div DAY + fst (getAverageCycleLength isoDateTime allDates)"
  "- DAY \<le> tz \<Longrightarrow> tz < 0 \<Longrightarrow>
   p_date (fst (getPrediction isoDateTime (fixedZone tz) now startDate allDates))
     = isoDateTime startDate div DAY + fst (getAverageCycleLength isoDateTime allDates) - 1"
  by (simp_all add: getPrediction_fields toLocaleDateString_setDate_plus
      toLocaleDateString_midnight_UTC [OF isoDateTime_midnight])

lemma getPrediction_daylight_saving:
  "setDate_plus newYork2024 (isoDateTime ''2024-02-25'') 28
     = isoDateTime ''2024-02-25'' + 28 * DAY - 3600000
   \<and> p_days (fst (getPrediction isoDateTime newYork2024 (isoDateTime ''2024-03-17'' + 84600000)
       ''2024-02-25'' [''2024-01-28'', ''2024-02-25''])) = 6
   \<and> p_days (fst (getPrediction isoDateTime (fixedZone (- 5 * 3600000)) (isoDateTime ''2024-03-17'' + 84600000)
       ''2024-02-25'' [''2024-01-28'', ''2024-02-25''])) = 7"
  by code_simp

text \<open>
  Claim C4 says that the forecast date is the start plus the cycle length in days. In a
  zone 5 hours west of UTC the code departs from it: for the start 2024-01-29 and the dates
  2024-01-01 and 2024-01-29 the cycle length is 28 and the forecast date is 2024-02-25, not
  2024-02-26. The date-only start is read as midnight UTC, which is the evening of
  2024-01-28 in local time, and the local day is rendered.
\<close>

theorem getPrediction_date_west_of_UTC:
  "p_cycleLength (fst (getPrediction isoDateTime (fixedZone (- 5 * 3600000)) (isoDateTime ''2024-02-01'')
       ''2024-01-29'' [''2024-01-01'', ''2024-01-29''])) = 28
   \<and> civil_from_days (p_date (fst (getPrediction isoDateTime (fixedZone (- 5 * 3600000))
       (isoDateTime ''2024-02-01'') ''2024-01-29'' [''2024-01-01'', ''2024-01-29'']))) = (2024, 2, 25)
   \<and> civil_from_days (isoDateTime ''2024-01-29'' div DAY + 28) = (2024, 2, 26)"
  by code_simp

section \<open>Effects of the operations\<close>

lemma getAverageCycleLength_again:
  "getAverageCycleLength tm (snd (getAverageCycleLength tm dates)) = getAverageCycleLength tm dates"
proof (cases "length dates < 2")
  case True
  then show ?thesis by (simp add: getAverageCycleLength_short)
next
  case False
  then have l: "2 \<le> length dates" and l': "2 \<le> length (sortDates tm dates)"
    by (simp_all add: sortDates_def)
  show ?thesis
    unfolding getAverageCycleLength_long [OF l] snd_conv getAverageCycleLength_long [OF l'] sortDates_idem
    by (rule refl)
qed

lemma getPrediction_snd:
  "snd (getPrediction tm z now startDate allDates) = snd (getAverageCycleLength tm allDates)"
  by (simp add: getPrediction_def Let_def split_beta)

lemma getPrediction_again:
  "getPrediction tm z now startDate (snd (getPrediction tm z now startDate allDates))
     = getPrediction tm z now startDate allDates"
  unfolding getPrediction_snd
  by (simp add: getPrediction_def getAverageCycleLength_again)

text \<open>
  Claim C8, as stated: no operation has a side effect, the caller's date list is left
  unchanged and no wall-clock time is read. \<open>getAverageCycleLength\<close> sorts the caller's
  array in place, and \<open>getPrediction\<close> reads the clock: the same arguments at two clock
  readings give two different results.
\<close>

theorem core_operations_not_pure:
  "snd (getAverageCycleLength isoDateTime [''2024-01-01'', ''2024-01-29''])
     \<noteq> [''2024-01-01'', ''2024-01-29'']
   \<and> fst (getPrediction isoDateTime (fixedZone 0) (19750 * DAY) ''2024-01-29'' [''2024-01-29''])
     \<noteq> fst (getPrediction isoDateTime (fixedZone 0) (19760 * DAY) ''2024-01-29'' [''2024-01-29''])"
proof -
  have v: "getAverageCycleLength isoDateTime [''2024-01-01'', ''2024-01-29'']
     = (28, [''2024-01-29'', ''2024-01-01''])"
    by code_simp
  have i: "isoDateTime ''2024-01-29'' = 19751 * DAY"
    by (simp add: isoDateTime_def days_from_civil_def digitsValue_def)
  have p: "p_days (fst (getPrediction isoDateTime (fixedZone 0) (19750 * DAY) ''2024-01-29'' [''2024-01-29''])) = 29"
    "p_days (fst (getPrediction isoDateTime (fixedZone 0) (19760 * DAY) ''2024-01-29'' [''2024-01-29''])) = 19"
    by (simp_all add: getPrediction_def getAverageCycleLength_short ceiling_days i
        setDate_plus_fixedZone flip: left_diff_distrib distrib_right) (simp_all add: DAY_def)
  have "fst (getPrediction isoDateTime (fixedZone 0) (19750 * DAY) ''2024-01-29'' [''2024-01-29''])
     \<noteq> fst (getPrediction isoDateTime (fixedZone 0) (19760 * DAY) ''2024-01-29'' [''2024-01-29''])"
  proof
    assume "fst (getPrediction isoDateTime (fixedZone 0) (19750 * DAY) ''2024-01-29'' [''2024-01-29''])
      = fst (getPrediction isoDateTime (fixedZone 0) (19760 * DAY) ''2024-01-29'' [''2024-01-29''])"
    then have "p_days (fst (getPrediction isoDateTime (fixedZone 0) (19750 * DAY) ''2024-01-29'' [''2024-01-29'']))
      = p_days (fst (getPrediction isoDateTime (fixedZone 0) (19760 * DAY) ''2024-01-29'' [''2024-01-29'']))"
      by (rule arg_cong)
    then show False
      unfolding p by simp
  qed
  then show ?thesis
    unfolding v by simp
qed

text \<open>
  Claim C8, amended. Every operation is deterministic in its arguments and the reading of
  the clock: \<open>getAverageCycleLength\<close> returns the same number when it is called again on
  the array as its first call left it, \<open>getPrediction\<close> returns the same result when it is
  called again at the same clock reading on the array as its first call left it, and
  \<open>getCurrentCycleDay\<close> and \<open>getCycleInfo\<close> with an explicit reference date do not depend on
  the clock.
\<close>

theorem core_operations_repeatable:
  "fst (getAverageCycleLength tm (snd (getAverageCycleLength tm dates)))
     = fst (getAverageCycleLength tm dates)
   \<and> fst (getPrediction tm z now startDate (snd (getPrediction tm z now startDate allDates)))
     = fst (getPrediction tm z now startDate allDates)
   \<and> (currentDate \<noteq> [] \<longrightarrow>
        getCurrentCycleDay tm now startDate (Some currentDate)
          = getCurrentCycleDay tm now' startDate (Some currentDate)
        \<and> getCycleInfo tm now startDate (Some currentDate) cycleLength
          = getCycleInfo tm now' startDate (Some currentDate) cycleLength)"
  by (simp add: getAverageCycleLength_again getPrediction_again getCycleInfo_def getCurrentCycleDay_Some)

theorem core_operations_repeatable_witness:
  "''2024-01-15'' \<noteq> []
   \<and> getCurrentCycleDay isoDateTime 0 ''2024-01-01'' (Some ''2024-01-15'')
     = getCurrentCycleDay isoDateTime 1 ''2024-01-01'' (Some ''2024-01-15'')
   \<and> fst (getAverageCycleLength isoDateTime
          (snd (getAverageCycleLength isoDateTime [''2024-01-01'', ''2024-01-29''])))
     = fst (getAverageCycleLength isoDateTime [''2024-01-01'', ''2024-01-29''])"
  using core_operations_repeatable [where tm = isoDateTime and now = 0 and now' = 1
      and startDate = "''2024-01-01''" and currentDate = "''2024-01-15''"
      and dates = "[''2024-01-01'', ''2024-01-29'']"]
  by simp

end
